theory Spec2Isabelle
  imports Main "HOL-Library.Word"
begin

text \<open>
  The email chooser of \<^verbatim>\<open>src/js/email-chooser.js\<close>: the decomposition of a
  \<open>mailto:\<close> link (\<open>parseMailto\<close>), the three links built from a recipient, a subject
  and a body (\<open>buildLinks\<close>), opening and closing the dialog (\<open>openModal\<close>,
  \<open>closeModal\<close>), and the click listener that calls them.

  The source calls built-in functions of the platform: \<open>trim\<close>, \<open>toLowerCase\<close>,
  \<open>startsWith\<close>, \<open>slice\<close>, \<open>indexOf\<close>, \<open>encodeURIComponent\<close>,
  \<open>decodeURIComponent\<close> and \<open>URLSearchParams\<close>.  The first sections define them, after
  ECMA-262 and the URL and Encoding standards; the chooser's own functions follow.
  A function that can throw returns a sum, \<open>Inl\<close> the error.
\<close>

section \<open>JavaScript strings\<close>

text \<open>
  A JavaScript string is a sequence of 16-bit UTF-16 code units; nothing forces
  surrogates to come in pairs.  Octets and Unicode code points are natural numbers.
  \<open>js\<close> turns an ASCII literal of the source into such a string.
\<close>

type_synonym jsstring = "16 word list"

definition js :: "string \<Rightarrow> jsstring" where
  "js s = map of_char s"

datatype error = URIError

text \<open>Truthiness of a value that is a string, \<open>null\<close> or \<open>undefined\<close> (\<open>None\<close>).\<close>

definition truthy :: "jsstring option \<Rightarrow> bool" where
  "truthy v = (case v of None \<Rightarrow> False | Some s \<Rightarrow> s \<noteq> [])"

text \<open>\<open>a || b\<close> on two strings, and on two values that may be \<open>null\<close>.\<close>

definition or_str :: "jsstring \<Rightarrow> jsstring \<Rightarrow> jsstring" where
  "or_str a b = (if a \<noteq> [] then a else b)"

definition or_val :: "jsstring option \<Rightarrow> jsstring option \<Rightarrow> jsstring option" where
  "or_val a b = (if truthy a then a else b)"

subsection \<open>\<open>String.prototype.trim\<close>\<close>

text \<open>ECMAScript's WhiteSpace and LineTerminator code points (all in the BMP).\<close>

definition isWhiteSpace :: "16 word \<Rightarrow> bool" where
  "isWhiteSpace u \<longleftrightarrow>
     u = 0x09 \<or> u = 0x0A \<or> u = 0x0B \<or> u = 0x0C \<or> u = 0x0D \<or> u = 0x20 \<or> u = 0xA0 \<or>
     u = 0x1680 \<or> (0x2000 \<le> u \<and> u \<le> 0x200A) \<or> u = 0x2028 \<or> u = 0x2029 \<or>
     u = 0x202F \<or> u = 0x205F \<or> u = 0x3000 \<or> u = 0xFEFF"

definition trim :: "jsstring \<Rightarrow> jsstring" where
  "trim s = rev (dropWhile isWhiteSpace (rev (dropWhile isWhiteSpace s)))"

subsection \<open>\<open>toLowerCase\<close>, \<open>startsWith\<close>, \<open>indexOf\<close>\<close>

text \<open>
  The source only asks whether the lower-cased string starts with the ASCII text
  \<open>mailto:\<close>.  \<open>lowerUnit\<close> is exact on ASCII and on the two non-ASCII characters
  whose lower case begins with an ASCII letter (U+0130 gives \<open>i\<close> followed by U+0307,
  the Kelvin sign U+212A gives \<open>k\<close>).  Every other non-ASCII character lower-cases to
  non-ASCII code units; it is left as it is, which is again non-ASCII, so the
  comparison with \<open>mailto:\<close> has the same outcome.
\<close>

definition lowerUnit :: "16 word \<Rightarrow> jsstring" where
  "lowerUnit u =
     (if 0x41 \<le> u \<and> u \<le> 0x5A then [u + 0x20]
      else if u = 0x130 then [0x69, 0x307]
      else if u = 0x212A then [0x6B]
      else [u])"

definition toLowerCase :: "jsstring \<Rightarrow> jsstring" where
  "toLowerCase s = concat (map lowerUnit s)"

definition startsWith :: "jsstring \<Rightarrow> jsstring \<Rightarrow> bool" where
  "startsWith s p \<longleftrightarrow> take (length p) s = p"

text \<open>\<open>s.indexOf(c)\<close> for a single code unit: the first position, or \<open>-1\<close>.\<close>

fun indexOf :: "jsstring \<Rightarrow> 16 word \<Rightarrow> int" where
  "indexOf [] c = - 1"
| "indexOf (x # xs) c =
     (if x = c then 0 else (let i = indexOf xs c in if i < 0 then - 1 else i + 1))"

section \<open>UTF-8 and UTF-16\<close>

definition isLead :: "16 word \<Rightarrow> bool" where
  "isLead u \<longleftrightarrow> 0xD800 \<le> u \<and> u \<le> 0xDBFF"

definition isTrail :: "16 word \<Rightarrow> bool" where
  "isTrail u \<longleftrightarrow> 0xDC00 \<le> u \<and> u \<le> 0xDFFF"

definition isSurrogate :: "16 word \<Rightarrow> bool" where
  "isSurrogate u \<longleftrightarrow> 0xD800 \<le> u \<and> u \<le> 0xDFFF"

text \<open>The code point of a surrogate pair.\<close>

definition pairCodePoint :: "16 word \<Rightarrow> 16 word \<Rightarrow> nat" where
  "pairCodePoint hi lo = (unat hi - 0xD800) * 0x400 + (unat lo - 0xDC00) + 0x10000"

text \<open>UTF16EncodeCodePoint.\<close>

definition utf16 :: "nat \<Rightarrow> jsstring" where
  "utf16 cp =
     (if cp < 0x10000 then [of_nat cp]
      else [of_nat (0xD800 + (cp - 0x10000) div 0x400),
            of_nat (0xDC00 + (cp - 0x10000) mod 0x400)])"

text \<open>The UTF-8 octets of a code point.\<close>

definition utf8 :: "nat \<Rightarrow> nat list" where
  "utf8 cp =
     (if cp < 0x80 then [cp]
      else if cp < 0x800 then [0xC0 + cp div 0x40, 0x80 + cp mod 0x40]
      else if cp < 0x10000 then
        [0xE0 + cp div 0x1000, 0x80 + (cp div 0x40) mod 0x40, 0x80 + cp mod 0x40]
      else
        [0xF0 + cp div 0x40000, 0x80 + (cp div 0x1000) mod 0x40,
         0x80 + (cp div 0x40) mod 0x40, 0x80 + cp mod 0x40])"

definition contByte :: "nat \<Rightarrow> bool" where
  "contByte b \<longleftrightarrow> 0x80 \<le> b \<and> b \<le> 0xBF"

text \<open>
  The code point of a multi-octet sequence whose first octet announces the length of the
  sequence, if the sequence is valid UTF-8: continuation octets in range, shortest
  form, no surrogate, at most U+10FFFF.
\<close>

fun utf8CodePoint :: "nat list \<Rightarrow> nat option" where
  "utf8CodePoint [b0, b1] =
     (let v = (b0 - 0xC0) * 0x40 + (b1 - 0x80)
      in if contByte b1 \<and> 0x80 \<le> v then Some v else None)"
| "utf8CodePoint [b0, b1, b2] =
     (let v = (b0 - 0xE0) * 0x1000 + (b1 - 0x80) * 0x40 + (b2 - 0x80)
      in if contByte b1 \<and> contByte b2 \<and> 0x800 \<le> v \<and> \<not> (0xD800 \<le> v \<and> v \<le> 0xDFFF)
         then Some v else None)"
| "utf8CodePoint [b0, b1, b2, b3] =
     (let v = (b0 - 0xF0) * 0x40000 + (b1 - 0x80) * 0x1000 + (b2 - 0x80) * 0x40 + (b3 - 0x80)
      in if contByte b1 \<and> contByte b2 \<and> contByte b3 \<and> 0x10000 \<le> v \<and> v \<le> 0x10FFFF
         then Some v else None)"
| "utf8CodePoint _ = None"

section \<open>\<open>encodeURIComponent\<close> and \<open>decodeURIComponent\<close>\<close>

text \<open>The characters \<open>encodeURIComponent\<close> leaves alone: letters, digits and \<open>-_.!~*'()\<close>.\<close>

definition unreserved :: "16 word \<Rightarrow> bool" where
  "unreserved u \<longleftrightarrow>
     (0x41 \<le> u \<and> u \<le> 0x5A) \<or> (0x61 \<le> u \<and> u \<le> 0x7A) \<or> (0x30 \<le> u \<and> u \<le> 0x39) \<or>
     u = 0x2D \<or> u = 0x5F \<or> u = 0x2E \<or> u = 0x21 \<or> u = 0x7E \<or> u = 0x2A \<or> u = 0x27 \<or>
     u = 0x28 \<or> u = 0x29"

definition hexDigit :: "nat \<Rightarrow> 16 word" where
  "hexDigit d = (if d < 10 then of_nat (0x30 + d) else of_nat (0x37 + d))"

text \<open>An octet as \<open>%XX\<close>, upper-case.\<close>

definition pct :: "nat \<Rightarrow> jsstring" where
  "pct b = [0x25, hexDigit (b div 16), hexDigit (b mod 16)]"

definition hexValue :: "16 word \<Rightarrow> nat option" where
  "hexValue u =
     (if 0x30 \<le> u \<and> u \<le> 0x39 then Some (unat u - 0x30)
      else if 0x41 \<le> u \<and> u \<le> 0x46 then Some (unat u - 0x37)
      else if 0x61 \<le> u \<and> u \<le> 0x66 then Some (unat u - 0x57)
      else None)"

definition parseHexOctet :: "16 word \<Rightarrow> 16 word \<Rightarrow> nat option" where
  "parseHexOctet a b =
     (case hexValue a of None \<Rightarrow> None
      | Some h \<Rightarrow> (case hexValue b of None \<Rightarrow> None | Some l \<Rightarrow> Some (16 * h + l)))"

text \<open>
  ECMAScript's Encode with the unreserved set of \<open>encodeURIComponent\<close>: a code unit of
  the set is copied, any other code point is written as the escapes of its UTF-8 octets,
  and an unpaired surrogate throws a URIError.
\<close>

fun encodeURIComponent :: "jsstring \<Rightarrow> error + jsstring" where
  "encodeURIComponent [] = Inr []"
| "encodeURIComponent (c # s) =
     (if unreserved c then map_sum id ((#) c) (encodeURIComponent s)
      else if \<not> isSurrogate c then
        map_sum id ((@) (concat (map pct (utf8 (unat c))))) (encodeURIComponent s)
      else if isTrail c then Inl URIError
      else (case s of
              [] \<Rightarrow> Inl URIError
            | d # r \<Rightarrow>
                if isTrail d then
                  map_sum id ((@) (concat (map pct (utf8 (pairCodePoint c d)))))
                    (encodeURIComponent r)
                else Inl URIError))"

text \<open>The number of leading 1 bits of an octet (5 stands for 5 or more).\<close>

definition leadingOnes :: "nat \<Rightarrow> nat" where
  "leadingOnes b =
     (if b < 0x80 then 0 else if b < 0xC0 then 1 else if b < 0xE0 then 2
      else if b < 0xF0 then 3 else if b < 0xF8 then 4 else 5)"

text \<open>The \<open>n\<close> continuation escapes \<open>%XX\<close> that must follow a leading escape.\<close>

fun contOctets :: "nat \<Rightarrow> jsstring \<Rightarrow> nat list option" where
  "contOctets n s =
     (if n = 0 then Some []
      else (case s of
              p # a # b # r \<Rightarrow>
                if p = 0x25 then
                  (case parseHexOctet a b of
                     None \<Rightarrow> None
                   | Some oc \<Rightarrow> map_option ((#) oc) (contOctets (n - 1) r))
                else None
            | _ \<Rightarrow> None))"

text \<open>
  ECMAScript's Decode with an empty reserved set: a code unit other than \<open>%\<close> is
  copied; \<open>%\<close> must start an escape \<open>%XX\<close>; an octet below 0x80 is that character; any
  other octet must start a valid UTF-8 sequence of escapes.  Every failure throws a
  URIError.
\<close>

fun decodeURIComponent :: "jsstring \<Rightarrow> error + jsstring" where
  "decodeURIComponent [] = Inr []"
| "decodeURIComponent (c # s) =
     (if c \<noteq> 0x25 then map_sum id ((#) c) (decodeURIComponent s)
      else (case s of
              a # b # r \<Rightarrow>
                (case parseHexOctet a b of
                   None \<Rightarrow> Inl URIError
                 | Some B \<Rightarrow>
                     let n = leadingOnes B in
                     if n = 0 then map_sum id ((#) (of_nat B)) (decodeURIComponent r)
                     else if n = 1 \<or> n > 4 then Inl URIError
                     else (case contOctets (n - 1) r of
                             None \<Rightarrow> Inl URIError
                           | Some os \<Rightarrow>
                               (case utf8CodePoint (B # os) of
                                  None \<Rightarrow> Inl URIError
                                | Some V \<Rightarrow>
                                    map_sum id ((@) (utf16 V))
                                      (decodeURIComponent (drop (3 * (n - 1)) r)))))
            | _ \<Rightarrow> Inl URIError))"

section \<open>\<open>URLSearchParams\<close>\<close>

text \<open>
  The constructor converts its argument to a scalar value string: an unpaired surrogate
  becomes U+FFFD.
\<close>

fun toUSV :: "jsstring \<Rightarrow> nat list" where
  "toUSV [] = []"
| "toUSV [c] = (if isSurrogate c then [0xFFFD] else [unat c])"
| "toUSV (c # d # s) =
     (if isLead c \<and> isTrail d then pairCodePoint c d # toUSV s
      else if isSurrogate c then 0xFFFD # toUSV (d # s)
      else unat c # toUSV (d # s))"

text \<open>Splitting a byte sequence on every occurrence of a delimiter.\<close>

fun splitOn :: "nat \<Rightarrow> nat list \<Rightarrow> nat list list" where
  "splitOn d [] = [[]]"
| "splitOn d (b # bs) =
     (if b = d then [] # splitOn d bs
      else (case splitOn d bs of [] \<Rightarrow> [[b]] | x # xs \<Rightarrow> (b # x) # xs))"

definition isHexByte :: "nat \<Rightarrow> bool" where
  "isHexByte b \<longleftrightarrow>
     (0x30 \<le> b \<and> b \<le> 0x39) \<or> (0x41 \<le> b \<and> b \<le> 0x46) \<or> (0x61 \<le> b \<and> b \<le> 0x66)"

definition hexByteValue :: "nat \<Rightarrow> nat" where
  "hexByteValue b = (if b \<le> 0x39 then b - 0x30 else if b \<le> 0x46 then b - 0x37 else b - 0x57)"

text \<open>
  The URL standard's percent-decode of a byte sequence: \<open>%\<close> followed by two hex
  digits is the octet they denote; any other \<open>%\<close> stays.
\<close>

fun percentDecode :: "nat list \<Rightarrow> nat list" where
  "percentDecode (p # a # b # bs) =
     (if p = 0x25 \<and> isHexByte a \<and> isHexByte b
      then (16 * hexByteValue a + hexByteValue b) # percentDecode bs
      else p # percentDecode (a # b # bs))"
| "percentDecode bs = bs"

text \<open>
  The Encoding standard's UTF-8 decoder with replacement: the state is the code point so
  far, the number of octets still needed and the bounds of the next octet.  An octet
  out of bounds ends the sequence with U+FFFD and is read again as a first octet.
\<close>

function utf8Decode :: "nat \<Rightarrow> nat \<Rightarrow> nat \<Rightarrow> nat \<Rightarrow> nat list \<Rightarrow> nat list" where
  "utf8Decode cp needed lower upper [] = (if needed \<noteq> 0 then [0xFFFD] else [])"
| "utf8Decode cp needed lower upper (b # bs) =
     (if needed = 0 then
        (if b \<le> 0x7F then b # utf8Decode 0 0 0x80 0xBF bs
         else if 0xC2 \<le> b \<and> b \<le> 0xDF then utf8Decode (b mod 0x20) 1 0x80 0xBF bs
         else if 0xE0 \<le> b \<and> b \<le> 0xEF then
           utf8Decode (b mod 0x10) 2 (if b = 0xE0 then 0xA0 else 0x80)
             (if b = 0xED then 0x9F else 0xBF) bs
         else if 0xF0 \<le> b \<and> b \<le> 0xF4 then
           utf8Decode (b mod 0x08) 3 (if b = 0xF0 then 0x90 else 0x80)
             (if b = 0xF4 then 0x8F else 0xBF) bs
         else 0xFFFD # utf8Decode 0 0 0x80 0xBF bs)
      else if \<not> (lower \<le> b \<and> b \<le> upper) then 0xFFFD # utf8Decode 0 0 0x80 0xBF (b # bs)
      else if needed = 1 then (cp * 0x40 + b mod 0x40) # utf8Decode 0 0 0x80 0xBF bs
      else utf8Decode (cp * 0x40 + b mod 0x40) (needed - 1) 0x80 0xBF bs)"
  by pat_completeness auto
termination
  by (relation "measure (\<lambda>(cp, needed, lower, upper, bs). 2 * length bs + (if needed = 0 then 0 else 1))")
     auto

definition utf8DecodeWithoutBOM :: "nat list \<Rightarrow> jsstring" where
  "utf8DecodeWithoutBOM bs = concat (map utf16 (utf8Decode 0 0 0x80 0xBF bs))"

text \<open>Name or value of a pair: \<open>+\<close> is a space, then percent-decode, then UTF-8 decode.\<close>

definition formComponent :: "nat list \<Rightarrow> jsstring" where
  "formComponent bs =
     utf8DecodeWithoutBOM (percentDecode (map (\<lambda>b. if b = 0x2B then 0x20 else b) bs))"

text \<open>One \<open>&\<close>-separated piece as a name and a value, split at its first \<open>=\<close>.\<close>

definition formPair :: "nat list \<Rightarrow> jsstring \<times> jsstring" where
  "formPair bs =
     (formComponent (takeWhile (\<lambda>b. b \<noteq> 0x3D) bs),
      formComponent (drop 1 (dropWhile (\<lambda>b. b \<noteq> 0x3D) bs)))"

text \<open>The \<open>application/x-www-form-urlencoded\<close> parser: empty pieces are skipped.\<close>

definition parseUrlencoded :: "nat list \<Rightarrow> (jsstring \<times> jsstring) list" where
  "parseUrlencoded bs = map formPair (filter (\<lambda>p. p \<noteq> []) (splitOn 0x26 bs))"

text \<open>\<open>new URLSearchParams(init)\<close> for a string: one leading \<open>?\<close> is dropped.\<close>

definition URLSearchParams :: "jsstring \<Rightarrow> (jsstring \<times> jsstring) list" where
  "URLSearchParams init =
     (let usv = toUSV init;
          usv' = (case usv of [] \<Rightarrow> [] | c # cs \<Rightarrow> if c = 0x3F then cs else usv)
      in parseUrlencoded (concat (map utf8 usv')))"

text \<open>\<open>params.get(name)\<close>: the value of the first pair of that name, or \<open>null\<close>.\<close>

definition get :: "(jsstring \<times> jsstring) list \<Rightarrow> jsstring \<Rightarrow> jsstring option" where
  "get params name = map_of params name"

section \<open>The email chooser\<close>

definition DEFAULT_TO :: jsstring where
  "DEFAULT_TO = js ''support@WestTechHA.com''"

text \<open>
  The object passed to \<open>WTEmail.open\<close> and returned by \<open>parseMailto\<close>; a field that is
  absent (\<open>undefined\<close>) is \<open>None\<close>, a field that is present is a string.
\<close>

record payload =
  to :: "jsstring option"
  subject :: "jsstring option"
  body :: "jsstring option"

definition enc :: "jsstring \<Rightarrow> error + jsstring" where
  "enc v = encodeURIComponent (or_str v [])"

text \<open>
  \<open>parseMailto\<close>.  \<open>decodeURIComponent\<close> is called outside the \<open>try\<close> block, so its
  URIError leaves the function.  The \<open>try\<close> block encloses only the
  \<open>URLSearchParams\<close> calls, which never throw on a string.
\<close>

definition parseMailto :: "jsstring \<Rightarrow> error + payload" where
  "parseMailto href =
     (let out = \<lparr>to = Some [], subject = Some [], body = Some []\<rparr> in
      if href = [] then Inr out
      else
        let raw = trim href in
        if \<not> startsWith (toLowerCase raw) (js ''mailto:'') then Inr out
        else
          let rest = drop 7 raw;
              qIndex = indexOf rest 0x3F;
              toPart = (if qIndex \<ge> 0 then take (nat qIndex) rest else rest);
              query = (if qIndex \<ge> 0 then drop (nat (qIndex + 1)) rest else [])
          in (case decodeURIComponent (or_str toPart []) of
                Inl e \<Rightarrow> Inl e
              | Inr d \<Rightarrow>
                  let out = out\<lparr>to := Some (or_str (trim d) DEFAULT_TO)\<rparr> in
                  if query \<noteq> [] then
                    let params = URLSearchParams query in
                    Inr (out\<lparr>subject :=
                               or_val (or_val (get params (js ''subject'')) (get params (js ''su'')))
                                 (Some []),
                             body := or_val (get params (js ''body'')) (Some [])\<rparr>)
                  else Inr out))"

text \<open>
  The rendered surface, as far as the functions below read or write it: the
  \<open>is-open\<close> class and the \<open>aria-hidden\<close> attribute of the modal, the \<open>href\<close> of the
  three links (absent until the first \<open>buildLinks\<close>) and the text of the recipient
  display.  The document either holds the surface or not yet: it has a body, and an
  element \<open>wtEmailModal\<close> in it is the one \<open>ensureModal\<close> created, with all its parts.
\<close>

record els =
  is_open :: bool
  aria_hidden :: jsstring
  gmail :: "jsstring option"
  outlook :: "jsstring option"
  mailto :: "jsstring option"
  toText :: jsstring

type_synonym document = "els option"

definition ensureModal :: "document \<Rightarrow> document" where
  "ensureModal doc =
     (case doc of
        Some m \<Rightarrow> doc
      | None \<Rightarrow>
          Some \<lparr>is_open = False, aria_hidden = js ''true'', gmail = None, outlook = None,
                mailto = None, toText = DEFAULT_TO\<rparr>)"

definition getEls :: "document \<Rightarrow> els option" where
  "getEls doc = doc"

text \<open>
  \<open>buildLinks\<close>: the three \<open>enc\<close> calls come first, so a URIError leaves the surface
  untouched.
\<close>

definition buildLinks :: "els \<Rightarrow> jsstring \<Rightarrow> jsstring \<Rightarrow> jsstring \<Rightarrow> error + els" where
  "buildLinks e to' subject' body' =
     (case enc to' of Inl x \<Rightarrow> Inl x | Inr toEnc \<Rightarrow>
     (case enc subject' of Inl x \<Rightarrow> Inl x | Inr suEnc \<Rightarrow>
     (case enc body' of Inl x \<Rightarrow> Inl x | Inr bodyEnc \<Rightarrow>
        Inr (e\<lparr>gmail := Some
                 (js ''https://mail.google.com/mail/?view=cm&fs=1&to='' @ toEnc @
                  (if subject' \<noteq> [] then js ''&su='' @ suEnc else []) @
                  (if body' \<noteq> [] then js ''&body='' @ bodyEnc else [])),
               outlook := Some
                 (js ''https://outlook.office.com/mail/deeplink/compose?to='' @ toEnc @
                  (if subject' \<noteq> [] then js ''&subject='' @ suEnc else []) @
                  (if body' \<noteq> [] then js ''&body='' @ bodyEnc else [])),
               mailto := Some
                 (js ''mailto:'' @ to' @
                  (if subject' \<noteq> [] \<or> body' \<noteq> [] then js ''?'' else []) @
                  (if subject' \<noteq> [] then js ''subject='' @ suEnc else []) @
                  (if subject' \<noteq> [] \<and> body' \<noteq> [] then js ''&'' else []) @
                  (if body' \<noteq> [] then js ''body='' @ bodyEnc else [])),
               toText := to'\<rparr>))))"

text \<open>
  \<open>openModal\<close> and \<open>closeModal\<close> return the document they leave behind; \<open>openModal\<close>
  also returns the error it throws, if any.  The argument of \<open>openModal\<close> may be absent.
\<close>

definition openModal :: "document \<Rightarrow> payload option \<Rightarrow> error option \<times> document" where
  "openModal doc p =
     (let doc1 = ensureModal doc in
      case getEls doc1 of
        None \<Rightarrow> (None, doc1)
      | Some e \<Rightarrow>
          let to' = (if p \<noteq> None \<and> truthy (to (the p)) then the (to (the p)) else DEFAULT_TO);
              subject' = (if p \<noteq> None \<and> truthy (subject (the p)) then the (subject (the p)) else []);
              body' = (if p \<noteq> None \<and> truthy (body (the p)) then the (body (the p)) else [])
          in (case buildLinks e to' subject' body' of
                Inl x \<Rightarrow> (Some x, doc1)
              | Inr e' \<Rightarrow> (None, Some (e'\<lparr>is_open := True, aria_hidden := js ''false''\<rparr>))))"

definition closeModal :: "document \<Rightarrow> document" where
  "closeModal doc =
     (case getEls doc of
        None \<Rightarrow> doc
      | Some e \<Rightarrow> Some (e\<lparr>is_open := False, aria_hidden := js ''true''\<rparr>))"

text \<open>
  The click listener of the document.  It reads the element that was clicked and its
  ancestors: of each the local name and the attributes.  A click is given by these
  elements, the target first, then its parent, up to the root.
\<close>

record element =
  localName :: jsstring
  attributes :: "(jsstring \<times> jsstring) list"

definition getAttribute :: "element \<Rightarrow> jsstring \<Rightarrow> jsstring option" where
  "getAttribute el name = map_of (attributes el) name"

text \<open>\<open>e.target.closest(selector)\<close>: the first of the target and its ancestors that matches.\<close>

definition closest :: "(element \<Rightarrow> bool) \<Rightarrow> element list \<Rightarrow> element option" where
  "closest selector path = List.find selector path"

text \<open>The selector \<^verbatim>\<open>[data-wt-email-trigger]\<close>: the attribute is present.\<close>

definition isTrigger :: "element \<Rightarrow> bool" where
  "isTrigger el \<longleftrightarrow> getAttribute el (js ''data-wt-email-trigger'') \<noteq> None"

text \<open>
  The selector \<^verbatim>\<open>a[href^="mailto:"]\<close>: an anchor whose \<open>href\<close> attribute, as written,
  begins with \<open>mailto:\<close>.  The comparison is case-sensitive and nothing is trimmed.
\<close>

definition isMailtoAnchor :: "element \<Rightarrow> bool" where
  "isMailtoAnchor el \<longleftrightarrow>
     localName el = js ''a'' \<and>
     (case getAttribute el (js ''href'') of
        None \<Rightarrow> False
      | Some h \<Rightarrow> startsWith h (js ''mailto:''))"

text \<open>
  What a click leaves behind: whether the default action of the browser was prevented,
  the error that left the listener, if any, and the document.
\<close>

record outcome =
  defaultPrevented :: bool
  thrown :: "error option"
  page :: document

text \<open>
  The listener: an element with the trigger attribute comes first, then a \<open>mailto:\<close>
  anchor; a click on neither is left to the browser.  \<open>preventDefault\<close> is called
  before anything that can throw.  An absent \<open>href\<close> would reach \<open>parseMailto\<close> as
  \<open>null\<close>, which it treats as it treats the empty string.
\<close>

definition onClick :: "document \<Rightarrow> element list \<Rightarrow> outcome" where
  "onClick doc path =
     (case closest isTrigger path of
        Some t \<Rightarrow>
          (let to' = or_val (getAttribute t (js ''data-email'')) (Some DEFAULT_TO);
               subject' = or_val (getAttribute t (js ''data-subject'')) (Some []);
               body' = or_val (getAttribute t (js ''data-body'')) (Some [])
           in (case openModal doc (Some \<lparr>to = to', subject = subject', body = body'\<rparr>) of
                 (x, doc') \<Rightarrow> \<lparr>defaultPrevented = True, thrown = x, page = doc'\<rparr>))
      | None \<Rightarrow>
          (case closest isMailtoAnchor path of
             Some a \<Rightarrow>
               (case parseMailto (case getAttribute a (js ''href'') of None \<Rightarrow> [] | Some h \<Rightarrow> h) of
                  Inl x \<Rightarrow> \<lparr>defaultPrevented = True, thrown = Some x, page = doc\<rparr>
                | Inr p \<Rightarrow>
                    (case openModal doc (Some p) of
                       (x, doc') \<Rightarrow> \<lparr>defaultPrevented = True, thrown = x, page = doc'\<rparr>))
           | None \<Rightarrow> \<lparr>defaultPrevented = False, thrown = None, page = doc\<rparr>))"

section \<open>Notions used by the statements and the proofs\<close>

text \<open>A string is well formed when every surrogate is half of a pair.\<close>

fun wellFormed :: "jsstring \<Rightarrow> bool" where
  "wellFormed [] = True"
| "wellFormed [c] = (\<not> isSurrogate c)"
| "wellFormed (c # d # s) =
     (if isLead c then isTrail d \<and> wellFormed s else \<not> isSurrogate c \<and> wellFormed (d # s))"

text \<open>Unicode scalar values: the code points that are not surrogates.\<close>

definition isScalar :: "nat \<Rightarrow> bool" where
  "isScalar cp \<longleftrightarrow> cp < 0x110000 \<and> \<not> (0xD800 \<le> cp \<and> cp \<le> 0xDFFF)"


definition plusToSpace :: "16 word \<Rightarrow> 16 word" where
  "plusToSpace u = (if u = 0x2B then 0x20 else u)"

text \<open>The value \<open>URLSearchParams\<close> reads from the text \<open>v\<close> standing after a \<open>=\<close>.\<close>

definition formValue :: "jsstring \<Rightarrow> jsstring" where
  "formValue v = formComponent (concat (map utf8 (toUSV v)))"

text \<open>
  The text \<open>v\<close> with its percent-escapes decoded and nothing else done to it: the UTF-8
  octets of \<open>v\<close> are percent-decoded and read as UTF-8.  A \<open>+\<close> stays a \<open>+\<close>.
\<close>

definition percentValue :: "jsstring \<Rightarrow> jsstring" where
  "percentValue v = utf8DecodeWithoutBOM (percentDecode (concat (map utf8 (toUSV v))))"


text \<open>The two states of the dialog; before the surface is rendered nothing is open.\<close>

definition isOPEN :: "document \<Rightarrow> bool" where
  "isOPEN doc = (case doc of None \<Rightarrow> False | Some e \<Rightarrow> is_open e)"

definition isCLOSED :: "document \<Rightarrow> bool" where
  "isCLOSED doc =
     (case doc of None \<Rightarrow> True | Some e \<Rightarrow> \<not> is_open e \<and> aria_hidden e = js ''true'')"

text \<open>
  The request with the defaults of the data model written out: an absent or empty
  recipient is the default address, an absent subject or body is the empty string.
\<close>

definition withDefaults :: "payload option \<Rightarrow> payload" where
  "withDefaults p =
     \<lparr>to = Some (case p of None \<Rightarrow> DEFAULT_TO
                 | Some r \<Rightarrow> (case to r of None \<Rightarrow> DEFAULT_TO
                             | Some t \<Rightarrow> if t = [] then DEFAULT_TO else t)),
      subject = Some (case p of None \<Rightarrow> []
                      | Some r \<Rightarrow> (case subject r of None \<Rightarrow> [] | Some t \<Rightarrow> t)),
      body = Some (case p of None \<Rightarrow> []
                   | Some r \<Rightarrow> (case body r of None \<Rightarrow> [] | Some t \<Rightarrow> t))\<rparr>"

section \<open>Evaluation on concrete strings\<close>

declare utf8Decode.simps [simp del] contOctets.simps [simp del]

lemmas string_defs =
  utf8Decode.simps contOctets.simps js_def truthy_def or_str_def or_val_def isWhiteSpace_def trim_def lowerUnit_def
  toLowerCase_def startsWith_def isLead_def isTrail_def isSurrogate_def pairCodePoint_def
  utf16_def utf8_def contByte_def unreserved_def hexDigit_def pct_def hexValue_def
  parseHexOctet_def leadingOnes_def isHexByte_def hexByteValue_def utf8DecodeWithoutBOM_def
  formComponent_def formPair_def parseUrlencoded_def URLSearchParams_def get_def Let_def

lemmas chooser_defs =
  DEFAULT_TO_def enc_def parseMailto_def ensureModal_def getEls_def buildLinks_def
  openModal_def closeModal_def getAttribute_def closest_def isTrigger_def isMailtoAnchor_def
  onClick_def

lemma enc_Nil: "enc [] = Inr []"
  by (simp add: enc_def or_str_def)

lemma enc_DEFAULT_TO: "enc DEFAULT_TO = Inr (js ''support%40WestTechHA.com'')"
  by (simp add: string_defs chooser_defs)

lemma DEFAULT_TO_not_Nil: "DEFAULT_TO \<noteq> []"
  by (simp add: DEFAULT_TO_def js_def)

section \<open>Well-formed strings and \<open>encodeURIComponent\<close>\<close>

lemmas word_cmp = word_le_nat_alt word_less_nat_alt

lemma unreserved_not_surrogate: "unreserved c \<Longrightarrow> \<not> isSurrogate c"
  by (auto simp: unreserved_def isSurrogate_def word_cmp)

lemma surrogate_cases: "isSurrogate c \<longleftrightarrow> isLead c \<or> isTrail c"
  by (auto simp: isSurrogate_def isLead_def isTrail_def word_cmp)

lemma lead_not_trail: "isLead c \<Longrightarrow> \<not> isTrail c"
  by (auto simp: isLead_def isTrail_def word_cmp)

lemma map_sum_Inr_iff: "(\<exists>E. map_sum id f x = Inr E) \<longleftrightarrow> (\<exists>E. x = Inr E)"
  by (cases x) auto

lemma encode_ok_iff: "(\<exists>E. encodeURIComponent s = Inr E) \<longleftrightarrow> wellFormed s"
proof (induction s rule: wellFormed.induct)
  case 1
  show ?case by simp
next
  case (2 c)
  show ?case
    by (auto simp: surrogate_cases dest: unreserved_not_surrogate)
next
  case (3 c d s)
  show ?case
  proof (cases "isLead c")
    case True
    then have "\<not> unreserved c" "isSurrogate c" "\<not> isTrail c"
      using unreserved_not_surrogate surrogate_cases lead_not_trail by blast+
    with True 3 show ?thesis
      by (simp add: map_sum_Inr_iff)
  next
    case False
    with 3 show ?thesis
      by (auto simp: map_sum_Inr_iff surrogate_cases dest: unreserved_not_surrogate)
  qed
qed

lemma encode_error: "encodeURIComponent s = Inl URIError \<longleftrightarrow> \<not> wellFormed s"
proof -
  have "encodeURIComponent s = Inl URIError \<longleftrightarrow> \<not> (\<exists>E. encodeURIComponent s = Inr E)"
    by (cases "encodeURIComponent s") (auto intro: error.exhaust)
  then show ?thesis by (simp add: encode_ok_iff)
qed

lemma enc_ok_iff: "(\<exists>E. enc s = Inr E) \<longleftrightarrow> wellFormed s"
  by (simp add: enc_def or_str_def encode_ok_iff)

section \<open>The three links\<close>

text \<open>What \<open>buildLinks\<close> writes, and when it writes.\<close>

lemma pct_utf8_not_Nil: "concat (map pct (utf8 cp)) \<noteq> []"
  by (simp add: utf8_def pct_def)

lemma map_sum_eq_Inr: "map_sum id f x = Inr E \<longleftrightarrow> (\<exists>E'. x = Inr E' \<and> E = f E')"
  by (cases x) auto

lemma encode_not_Nil: "encodeURIComponent s = Inr S \<Longrightarrow> s \<noteq> [] \<Longrightarrow> S \<noteq> []"
  using pct_utf8_not_Nil
  by (cases s) (auto simp: map_sum_eq_Inr simp del: concat_eq_Nil_conv split: if_splits list.splits)

lemma enc_eq: "enc s = encodeURIComponent s"
  by (simp add: enc_def or_str_def)

lemma buildLinks_Inr:
  "buildLinks e t s b = Inr e' \<longleftrightarrow>
     (\<exists>T S B. encodeURIComponent t = Inr T \<and> encodeURIComponent s = Inr S \<and>
        encodeURIComponent b = Inr B \<and>
        e' = e\<lparr>gmail := Some
                 (js ''https://mail.google.com/mail/?view=cm&fs=1&to='' @ T @
                  (if s \<noteq> [] then js ''&su='' @ S else []) @
                  (if b \<noteq> [] then js ''&body='' @ B else [])),
               outlook := Some
                 (js ''https://outlook.office.com/mail/deeplink/compose?to='' @ T @
                  (if s \<noteq> [] then js ''&subject='' @ S else []) @
                  (if b \<noteq> [] then js ''&body='' @ B else [])),
               mailto := Some
                 (js ''mailto:'' @ t @
                  (if s \<noteq> [] \<or> b \<noteq> [] then js ''?'' else []) @
                  (if s \<noteq> [] then js ''subject='' @ S else []) @
                  (if s \<noteq> [] \<and> b \<noteq> [] then js ''&'' else []) @
                  (if b \<noteq> [] then js ''body='' @ B else [])),
               toText := t\<rparr>)"
  unfolding buildLinks_def enc_eq
  by (cases "encodeURIComponent t"; cases "encodeURIComponent s"; cases "encodeURIComponent b")
     auto

lemma buildLinks_ok_iff:
  "(\<exists>e'. buildLinks e t s b = Inr e') \<longleftrightarrow> wellFormed t \<and> wellFormed s \<and> wellFormed b"
  unfolding buildLinks_Inr
  using encode_ok_iff [of t] encode_ok_iff [of s] encode_ok_iff [of b] by blast

text \<open>
  Claim C5: the native link is \<open>mailto:\<close>, the raw address, a \<open>?\<close> exactly when
  subject or body is non-empty, \<open>subject=\<close> with the encoded subject when the subject
  is non-empty, an \<open>&\<close> exactly when both are non-empty, and \<open>body=\<close> with the
  encoded body when the body is non-empty.  The links are built exactly for
  well-formed strings: on an unpaired surrogate \<open>encodeURIComponent\<close> throws before any
  link is written.
\<close>

theorem buildLinks_mailto:
  "((\<exists>e'. buildLinks e t s b = Inr e') \<longleftrightarrow> wellFormed t \<and> wellFormed s \<and> wellFormed b) \<and>
   (\<forall>e'. buildLinks e t s b = Inr e' \<longrightarrow>
      (\<exists>S B. encodeURIComponent s = Inr S \<and> encodeURIComponent b = Inr B \<and>
         mailto e' = Some
           (js ''mailto:'' @ t @
            (if s \<noteq> [] \<or> b \<noteq> [] then js ''?'' else []) @
            (if s \<noteq> [] then js ''subject='' @ S else []) @
            (if s \<noteq> [] \<and> b \<noteq> [] then js ''&'' else []) @
            (if b \<noteq> [] then js ''body='' @ B else []))))"
proof (intro conjI allI impI)
  show "(\<exists>e'. buildLinks e t s b = Inr e') \<longleftrightarrow> wellFormed t \<and> wellFormed s \<and> wellFormed b"
    by (rule buildLinks_ok_iff)
next
  fix e' assume "buildLinks e t s b = Inr e'"
  then obtain T S B where "encodeURIComponent s = Inr S" "encodeURIComponent b = Inr B"
    and e': "e' = e\<lparr>gmail := Some
                 (js ''https://mail.google.com/mail/?view=cm&fs=1&to='' @ T @
                  (if s \<noteq> [] then js ''&su='' @ S else []) @
                  (if b \<noteq> [] then js ''&body='' @ B else [])),
               outlook := Some
                 (js ''https://outlook.office.com/mail/deeplink/compose?to='' @ T @
                  (if s \<noteq> [] then js ''&subject='' @ S else []) @
                  (if b \<noteq> [] then js ''&body='' @ B else [])),
               mailto := Some
                 (js ''mailto:'' @ t @
                  (if s \<noteq> [] \<or> b \<noteq> [] then js ''?'' else []) @
                  (if s \<noteq> [] then js ''subject='' @ S else []) @
                  (if s \<noteq> [] \<and> b \<noteq> [] then js ''&'' else []) @
                  (if b \<noteq> [] then js ''body='' @ B else [])),
               toText := t\<rparr>"
    unfolding buildLinks_Inr by blast
  then show "\<exists>S B. encodeURIComponent s = Inr S \<and> encodeURIComponent b = Inr B \<and>
         mailto e' = Some
           (js ''mailto:'' @ t @
            (if s \<noteq> [] \<or> b \<noteq> [] then js ''?'' else []) @
            (if s \<noteq> [] then js ''subject='' @ S else []) @
            (if s \<noteq> [] \<and> b \<noteq> [] then js ''&'' else []) @
            (if b \<noteq> [] then js ''body='' @ B else []))"
    by simp
qed

theorem buildLinks_mailto_witness:
  "wellFormed (js ''a b@x.com'') \<and> wellFormed (js ''Hi there'') \<and> wellFormed (js ''x&y'') \<and>
   (\<exists>e'. buildLinks \<lparr>is_open = False, aria_hidden = js ''true'', gmail = None, outlook = None,
                mailto = None, toText = DEFAULT_TO\<rparr> (js ''a b@x.com'') (js ''Hi there'') (js ''x&y'') = Inr e' \<and>
      mailto e' = Some (js ''mailto:a b@x.com?subject=Hi%20there&body=x%26y''))"
  using buildLinks_mailto [of "\<lparr>is_open = False, aria_hidden = js ''true'', gmail = None, outlook = None,
                mailto = None, toText = DEFAULT_TO\<rparr>" "js ''a b@x.com''" "js ''Hi there''" "js ''x&y''"]
  by (simp add: string_defs chooser_defs)

text \<open>
  Claim C6: the Gmail and the Outlook link start at their compose endpoint with the
  encoded \<open>to\<close> parameter, then carry the subject parameter (\<open>su\<close> for Gmail,
  \<open>subject\<close> for Outlook) exactly when the subject is non-empty and the \<open>body\<close>
  parameter exactly when the body is non-empty; a parameter that is present has a
  non-empty value.
\<close>

theorem buildLinks_gmail_outlook:
  "((\<exists>e'. buildLinks e t s b = Inr e') \<longleftrightarrow> wellFormed t \<and> wellFormed s \<and> wellFormed b) \<and>
   (\<forall>e'. buildLinks e t s b = Inr e' \<longrightarrow>
      (\<exists>T S B. encodeURIComponent t = Inr T \<and> encodeURIComponent s = Inr S \<and>
         encodeURIComponent b = Inr B \<and>
         (s = [] \<or> S \<noteq> []) \<and> (b = [] \<or> B \<noteq> []) \<and>
         gmail e' = Some
           (js ''https://mail.google.com/mail/?view=cm&fs=1&to='' @ T @
            (if s \<noteq> [] then js ''&su='' @ S else []) @
            (if b \<noteq> [] then js ''&body='' @ B else [])) \<and>
         outlook e' = Some
           (js ''https://outlook.office.com/mail/deeplink/compose?to='' @ T @
            (if s \<noteq> [] then js ''&subject='' @ S else []) @
            (if b \<noteq> [] then js ''&body='' @ B else []))))"
proof (intro conjI allI impI)
  show "(\<exists>e'. buildLinks e t s b = Inr e') \<longleftrightarrow> wellFormed t \<and> wellFormed s \<and> wellFormed b"
    by (rule buildLinks_ok_iff)
next
  fix e' assume "buildLinks e t s b = Inr e'"
  then obtain T S B where enc: "encodeURIComponent t = Inr T" "encodeURIComponent s = Inr S"
      "encodeURIComponent b = Inr B"
    and e': "e' = e\<lparr>gmail := Some
                 (js ''https://mail.google.com/mail/?view=cm&fs=1&to='' @ T @
                  (if s \<noteq> [] then js ''&su='' @ S else []) @
                  (if b \<noteq> [] then js ''&body='' @ B else [])),
               outlook := Some
                 (js ''https://outlook.office.com/mail/deeplink/compose?to='' @ T @
                  (if s \<noteq> [] then js ''&subject='' @ S else []) @
                  (if b \<noteq> [] then js ''&body='' @ B else [])),
               mailto := Some
                 (js ''mailto:'' @ t @
                  (if s \<noteq> [] \<or> b \<noteq> [] then js ''?'' else []) @
                  (if s \<noteq> [] then js ''subject='' @ S else []) @
                  (if s \<noteq> [] \<and> b \<noteq> [] then js ''&'' else []) @
                  (if b \<noteq> [] then js ''body='' @ B else [])),
               toText := t\<rparr>"
    unfolding buildLinks_Inr by blast
  have "s = [] \<or> S \<noteq> []" "b = [] \<or> B \<noteq> []"
    using enc encode_not_Nil by blast+
  with enc e'
  show "\<exists>T S B. encodeURIComponent t = Inr T \<and> encodeURIComponent s = Inr S \<and>
         encodeURIComponent b = Inr B \<and>
         (s = [] \<or> S \<noteq> []) \<and> (b = [] \<or> B \<noteq> []) \<and>
         gmail e' = Some
           (js ''https://mail.google.com/mail/?view=cm&fs=1&to='' @ T @
            (if s \<noteq> [] then js ''&su='' @ S else []) @
            (if b \<noteq> [] then js ''&body='' @ B else [])) \<and>
         outlook e' = Some
           (js ''https://outlook.office.com/mail/deeplink/compose?to='' @ T @
            (if s \<noteq> [] then js ''&subject='' @ S else []) @
            (if b \<noteq> [] then js ''&body='' @ B else []))"
    by simp
qed

theorem buildLinks_gmail_outlook_witness:
  "wellFormed (js ''a b@x.com'') \<and> wellFormed [] \<and> wellFormed (js ''x&y'') \<and>
   (\<exists>e'. buildLinks \<lparr>is_open = False, aria_hidden = js ''true'', gmail = None, outlook = None,
                mailto = None, toText = DEFAULT_TO\<rparr> (js ''a b@x.com'') [] (js ''x&y'') = Inr e' \<and>
      gmail e' = Some (js ''https://mail.google.com/mail/?view=cm&fs=1&to=a%20b%40x.com&body=x%26y'') \<and>
      outlook e' = Some (js ''https://outlook.office.com/mail/deeplink/compose?to=a%20b%40x.com&body=x%26y''))"
  using buildLinks_gmail_outlook [of "\<lparr>is_open = False, aria_hidden = js ''true'', gmail = None, outlook = None,
                mailto = None, toText = DEFAULT_TO\<rparr>" "js ''a b@x.com''" "[]" "js ''x&y''"]
  by (simp add: string_defs chooser_defs)

section \<open>Closing the dialog\<close>

text \<open>
  Claim C8: \<open>close()\<close> is total and idempotent.  From every state it leaves the dialog
  closed; closing twice is closing once; on a closed dialog, and before the surface
  exists, it changes nothing.
\<close>

theorem closeModal_idempotent:
  "closeModal (closeModal doc) = closeModal doc \<and>
   isCLOSED (closeModal doc) \<and> \<not> isOPEN (closeModal doc) \<and>
   closeModal None = None \<and>
   (isCLOSED doc \<longrightarrow> closeModal doc = doc)"
  by (cases doc) (auto simp: closeModal_def getEls_def isCLOSED_def isOPEN_def)

theorem closeModal_idempotent_witness:
  "isCLOSED (ensureModal None) \<and> closeModal (ensureModal None) = ensureModal None \<and>
   isOPEN (snd (openModal None None)) \<and> isCLOSED (closeModal (snd (openModal None None)))"
  using closeModal_idempotent [of "ensureModal None"]
    closeModal_idempotent [of "snd (openModal None None)"]
  by (simp add: isCLOSED_def isOPEN_def string_defs chooser_defs)

section \<open>Opening the dialog\<close>

lemma withDefaults_fields:
  "to (withDefaults p) =
     Some (if p \<noteq> None \<and> truthy (to (the p)) then the (to (the p)) else DEFAULT_TO)"
  "subject (withDefaults p) =
     Some (if p \<noteq> None \<and> truthy (subject (the p)) then the (subject (the p)) else [])"
  "body (withDefaults p) =
     Some (if p \<noteq> None \<and> truthy (body (the p)) then the (body (the p)) else [])"
  by (auto simp: withDefaults_def truthy_def split: option.splits)

lemma openModal_eq:
  "openModal doc p =
     (case buildLinks (the (ensureModal doc)) (the (to (withDefaults p)))
             (the (subject (withDefaults p))) (the (body (withDefaults p))) of
        Inl x \<Rightarrow> (Some x, ensureModal doc)
      | Inr e' \<Rightarrow> (None, Some (e'\<lparr>is_open := True, aria_hidden := js ''false''\<rparr>)))"
proof -
  obtain e where e: "ensureModal doc = Some e"
    by (cases doc) (auto simp: ensureModal_def)
  show ?thesis
    by (simp add: openModal_def Let_def getEls_def withDefaults_fields e cong: sum.case_cong)
qed

lemma withDefaults_idem: "withDefaults (Some (withDefaults p)) = withDefaults p"
  by (auto simp: withDefaults_def DEFAULT_TO_not_Nil split: option.splits)

text \<open>
  Claim C9: \<open>open(request)\<close> takes a request whose fields, or which itself, may be
  absent.  It behaves as on the request with the defaults written out: an absent or
  empty recipient is \<open>support@WestTechHA.com\<close>, an absent subject or body is the empty
  string; the links are built from these three values.
\<close>

theorem openModal_defaults:
  "openModal doc p = openModal doc (Some (withDefaults p)) \<and>
   (\<exists>t s b. withDefaults p = \<lparr>to = Some t, subject = Some s, body = Some b\<rparr> \<and> t \<noteq> [] \<and>
      openModal doc p =
        (case buildLinks (the (ensureModal doc)) t s b of
           Inl x \<Rightarrow> (Some x, ensureModal doc)
         | Inr e' \<Rightarrow> (None, Some (e'\<lparr>is_open := True, aria_hidden := js ''false''\<rparr>)))) \<and>
   withDefaults None = \<lparr>to = Some DEFAULT_TO, subject = Some [], body = Some []\<rparr> \<and>
   withDefaults (Some \<lparr>to = None, subject = None, body = None\<rparr>) = withDefaults None \<and>
   withDefaults (Some \<lparr>to = Some [], subject = Some [], body = Some []\<rparr>) = withDefaults None"
proof (intro conjI)
  show "openModal doc p = openModal doc (Some (withDefaults p))"
    by (simp add: openModal_eq [of doc p] openModal_eq [of doc "Some (withDefaults p)"]
        withDefaults_idem)
  show "\<exists>t s b. withDefaults p = \<lparr>to = Some t, subject = Some s, body = Some b\<rparr> \<and> t \<noteq> [] \<and>
      openModal doc p =
        (case buildLinks (the (ensureModal doc)) t s b of
           Inl x \<Rightarrow> (Some x, ensureModal doc)
         | Inr e' \<Rightarrow> (None, Some (e'\<lparr>is_open := True, aria_hidden := js ''false''\<rparr>)))"
    by (simp add: openModal_eq [of doc p])
       (auto simp: withDefaults_def DEFAULT_TO_not_Nil split: option.splits)
qed (simp_all add: withDefaults_def)

theorem openModal_defaults_witness:
  "openModal None None =
     (None, Some \<lparr>is_open = True, aria_hidden = js ''false'',
        gmail = Some (js ''https://mail.google.com/mail/?view=cm&fs=1&to=support%40WestTechHA.com''),
        outlook = Some (js ''https://outlook.office.com/mail/deeplink/compose?to=support%40WestTechHA.com''),
        mailto = Some (js ''mailto:support@WestTechHA.com''),
        toText = js ''support@WestTechHA.com''\<rparr>) \<and>
   openModal None (Some \<lparr>to = None, subject = Some (js ''Hi''), body = None\<rparr>) =
     openModal None (Some \<lparr>to = Some DEFAULT_TO, subject = Some (js ''Hi''), body = Some []\<rparr>)"
proof -
  have "openModal None (Some \<lparr>to = Some DEFAULT_TO, subject = Some [], body = Some []\<rparr>) =
     (None, Some \<lparr>is_open = True, aria_hidden = js ''false'',
        gmail = Some (js ''https://mail.google.com/mail/?view=cm&fs=1&to=support%40WestTechHA.com''),
        outlook = Some (js ''https://outlook.office.com/mail/deeplink/compose?to=support%40WestTechHA.com''),
        mailto = Some (js ''mailto:support@WestTechHA.com''),
        toText = js ''support@WestTechHA.com''\<rparr>)"
    by (simp add: string_defs chooser_defs)
  moreover have "withDefaults (Some \<lparr>to = None, subject = Some (js ''Hi''), body = None\<rparr>) =
      \<lparr>to = Some DEFAULT_TO, subject = Some (js ''Hi''), body = Some []\<rparr>"
    by (simp add: withDefaults_def)
  ultimately show ?thesis
    using openModal_defaults [of None None]
      openModal_defaults [of None "Some \<lparr>to = None, subject = Some (js ''Hi''), body = None\<rparr>"]
    by simp
qed

section \<open>Determinism\<close>

lemma buildLinks_Inl_state: "buildLinks ea t s b = Inl x \<Longrightarrow> buildLinks eb t s b = Inl x"
  unfolding buildLinks_def
  by (cases "enc t"; cases "enc s"; cases "enc b") auto

lemma buildLinks_Inr_state:
  assumes "buildLinks ea t s b = Inr r1"
  shows "\<exists>r2. buildLinks eb t s b = Inr r2 \<and>
           r2\<lparr>is_open := o', aria_hidden := a\<rparr> = r1\<lparr>is_open := o', aria_hidden := a\<rparr> \<and>
           gmail r2 = gmail r1 \<and> outlook r2 = outlook r1 \<and> mailto r2 = mailto r1 \<and>
           toText r2 = toText r1"
  using assms unfolding buildLinks_def
  by (cases "enc t"; cases "enc s"; cases "enc b"; cases ea; cases eb) auto

lemma openModal_state:
  "fst (openModal d1 p) = fst (openModal d2 p) \<and>
   (fst (openModal d1 p) = None \<longrightarrow> snd (openModal d1 p) = snd (openModal d2 p))"
proof (cases "buildLinks (the (ensureModal d1)) (the (to (withDefaults p)))
             (the (subject (withDefaults p))) (the (body (withDefaults p)))")
  case (Inl x)
  from buildLinks_Inl_state [OF this, of "the (ensureModal d2)"] Inl
  show ?thesis by (simp add: openModal_eq)
next
  case (Inr r1)
  from buildLinks_Inr_state [OF this, where eb = "the (ensureModal d2)" and o' = True
      and a = "js ''false''"] Inr
  show ?thesis by (auto simp: openModal_eq)
qed

lemma openModal_again:
  assumes "fst (openModal d p) = None"
  shows "openModal (snd (openModal d p)) p = openModal d p"
proof -
  from openModal_state [of "snd (openModal d p)" p d] assms
  have "fst (openModal (snd (openModal d p)) p) = None"
    by simp
  with openModal_state [of "snd (openModal d p)" p d] show ?thesis
    by (simp add: prod_eq_iff)
qed




lemma onClick_state:
  "defaultPrevented (onClick d1 path) = defaultPrevented (onClick d2 path) \<and>
   thrown (onClick d1 path) = thrown (onClick d2 path) \<and>
   (defaultPrevented (onClick d1 path) \<and> thrown (onClick d1 path) = None \<longrightarrow>
      page (onClick d1 path) = page (onClick d2 path))"
proof (cases "closest isTrigger path")
  case (Some t)
  define p where "p = \<lparr>to = or_val (getAttribute t (js ''data-email'')) (Some DEFAULT_TO),
      subject = or_val (getAttribute t (js ''data-subject'')) (Some []),
      body = or_val (getAttribute t (js ''data-body'')) (Some [])\<rparr>"
  have "onClick d path = \<lparr>defaultPrevented = True, thrown = fst (openModal d (Some p)),
      page = snd (openModal d (Some p))\<rparr>" for d
    by (simp add: onClick_def Some p_def Let_def split: prod.splits)
  with openModal_state [of d1 "Some p" d2] show ?thesis by simp
next
  case None
  note n = this
  show ?thesis
  proof (cases "closest isMailtoAnchor path")
    case None
    with n show ?thesis by (simp add: onClick_def)
  next
    case (Some a)
    define href where "href = (case getAttribute a (js ''href'') of None \<Rightarrow> [] | Some h \<Rightarrow> h)"
    show ?thesis
    proof (cases "parseMailto href")
      case (Inl x)
      with n Some show ?thesis by (simp add: onClick_def href_def)
    next
      case (Inr p)
      have "onClick d path = \<lparr>defaultPrevented = True, thrown = fst (openModal d (Some p)),
          page = snd (openModal d (Some p))\<rparr>" for d
        using n Some Inr by (simp add: onClick_def href_def split: prod.splits)
      with openModal_state [of d1 "Some p" d2] show ?thesis by simp
    qed
  qed
qed

text \<open>
  Claim C7: decomposition and link building are deterministic.  \<open>parseMailto\<close> reads
  nothing but its argument, so it is a function of the string.  \<open>buildLinks\<close> and
  \<open>openModal\<close> write the surface; the links and the recipient text they write, and
  whether they throw, do not depend on the surface they find, and opening twice with
  the same request gives what opening once gives.  The same holds for a click: whether
  it is taken over, whether it throws and, when it is taken over and does not throw, the
  document it leaves depend on the clicked elements only.  In every link the parameters
  stand in one order: recipient, subject, body.
\<close>

theorem builder_deterministic:
  "map_sum id (\<lambda>e. (gmail e, outlook e, mailto e, toText e)) (buildLinks e1 t s b) =
     map_sum id (\<lambda>e. (gmail e, outlook e, mailto e, toText e)) (buildLinks e2 t s b) \<and>
   fst (openModal d1 p) = fst (openModal d2 p) \<and>
   (fst (openModal d1 p) = None \<longrightarrow>
      snd (openModal d1 p) = snd (openModal d2 p) \<and>
      openModal (snd (openModal d1 p)) p = openModal d1 p) \<and>
   defaultPrevented (onClick d1 path) = defaultPrevented (onClick d2 path) \<and>
   thrown (onClick d1 path) = thrown (onClick d2 path) \<and>
   (defaultPrevented (onClick d1 path) \<and> thrown (onClick d1 path) = None \<longrightarrow>
      page (onClick d1 path) = page (onClick d2 path)) \<and>
   (\<forall>e'. buildLinks e1 t s b = Inr e' \<longrightarrow>
      (\<exists>T S B. encodeURIComponent t = Inr T \<and> encodeURIComponent s = Inr S \<and>
         encodeURIComponent b = Inr B \<and>
         gmail e' = Some
           (js ''https://mail.google.com/mail/?view=cm&fs=1&to='' @ T @
            (if s \<noteq> [] then js ''&su='' @ S else []) @
            (if b \<noteq> [] then js ''&body='' @ B else [])) \<and>
         outlook e' = Some
           (js ''https://outlook.office.com/mail/deeplink/compose?to='' @ T @
            (if s \<noteq> [] then js ''&subject='' @ S else []) @
            (if b \<noteq> [] then js ''&body='' @ B else [])) \<and>
         mailto e' = Some
           (js ''mailto:'' @ t @
            (if s \<noteq> [] \<or> b \<noteq> [] then js ''?'' else []) @
            (if s \<noteq> [] then js ''subject='' @ S else []) @
            (if s \<noteq> [] \<and> b \<noteq> [] then js ''&'' else []) @
            (if b \<noteq> [] then js ''body='' @ B else []))))"
proof (intro conjI)
  show "map_sum id (\<lambda>e. (gmail e, outlook e, mailto e, toText e)) (buildLinks e1 t s b) =
     map_sum id (\<lambda>e. (gmail e, outlook e, mailto e, toText e)) (buildLinks e2 t s b)"
  proof (cases "buildLinks e1 t s b")
    case (Inl x)
    from buildLinks_Inl_state [OF this, of e2] Inl show ?thesis by simp
  next
    case (Inr r1)
    from buildLinks_Inr_state [OF this, where eb = e2 and o' = True and a = "[]"] Inr
    show ?thesis by auto
  qed
  show "\<forall>e'. buildLinks e1 t s b = Inr e' \<longrightarrow>
      (\<exists>T S B. encodeURIComponent t = Inr T \<and> encodeURIComponent s = Inr S \<and>
         encodeURIComponent b = Inr B \<and>
         gmail e' = Some
           (js ''https://mail.google.com/mail/?view=cm&fs=1&to='' @ T @
            (if s \<noteq> [] then js ''&su='' @ S else []) @
            (if b \<noteq> [] then js ''&body='' @ B else [])) \<and>
         outlook e' = Some
           (js ''https://outlook.office.com/mail/deeplink/compose?to='' @ T @
            (if s \<noteq> [] then js ''&subject='' @ S else []) @
            (if b \<noteq> [] then js ''&body='' @ B else [])) \<and>
         mailto e' = Some
           (js ''mailto:'' @ t @
            (if s \<noteq> [] \<or> b \<noteq> [] then js ''?'' else []) @
            (if s \<noteq> [] then js ''subject='' @ S else []) @
            (if s \<noteq> [] \<and> b \<noteq> [] then js ''&'' else []) @
            (if b \<noteq> [] then js ''body='' @ B else [])))"
    unfolding buildLinks_Inr by auto
qed (use openModal_state [of d1 p d2] openModal_again [of d1 p] onClick_state [of d1 path d2]
     in simp_all)

theorem builder_deterministic_witness:
  "defaultPrevented
     (onClick None [\<lparr>localName = js ''a'', attributes = [(js ''href'', js ''mailto:a@b.c?subject=x'')]\<rparr>]) \<and>
   thrown
     (onClick None [\<lparr>localName = js ''a'', attributes = [(js ''href'', js ''mailto:a@b.c?subject=x'')]\<rparr>]) =
     None \<and>
   page
     (onClick None [\<lparr>localName = js ''a'', attributes = [(js ''href'', js ''mailto:a@b.c?subject=x'')]\<rparr>]) =
   page
     (onClick (snd (openModal None None))
        [\<lparr>localName = js ''a'', attributes = [(js ''href'', js ''mailto:a@b.c?subject=x'')]\<rparr>]) \<and>
   fst (openModal None None) = None \<and>
   openModal (snd (openModal None None)) None = openModal None None"
proof -
  let ?path = "[\<lparr>localName = js ''a'', attributes = [(js ''href'', js ''mailto:a@b.c?subject=x'')]\<rparr>]"
  have 1: "defaultPrevented (onClick None ?path) \<and> thrown (onClick None ?path) = None"
    by (simp add: string_defs chooser_defs)
  have 2: "fst (openModal None None) = None"
    by (simp add: string_defs chooser_defs)
  from builder_deterministic [of _ _ _ _ _ None None _ ?path] 2
  have 3: "openModal (snd (openModal None None)) None = openModal None None"
    by blast
  from builder_deterministic [of _ _ _ _ _ None None "snd (openModal None None)" ?path] 1
  have "page (onClick None ?path) = page (onClick (snd (openModal None None)) ?path)"
    by blast
  with 1 2 3 show ?thesis by blast
qed

section \<open>Input that is not a \<open>mailto:\<close> link\<close>

text \<open>
  Claim C1 as stated: an input that does not start with \<open>mailto:\<close> (after trimming,
  ignoring case) is decomposed into the default address with empty subject and body.
  It fails: \<open>parseMailto\<close> returns its initial object, whose recipient is the empty
  string.
\<close>

theorem parseMailto_non_mailto_counterexample:
  "\<not> startsWith (toLowerCase (trim (js ''https://example.com''))) (js ''mailto:'') \<and>
   parseMailto (js ''https://example.com'') \<noteq>
     Inr \<lparr>to = Some DEFAULT_TO, subject = Some [], body = Some []\<rparr>"
  by (simp add: string_defs chooser_defs)

text \<open>
  Claim C1, amended: for every input string that does not start with \<open>mailto:\<close> (after
  trimming, ignoring case), \<open>parseMailto\<close> returns a request whose recipient, subject and
  body are all the empty string.
\<close>

theorem parseMailto_non_mailto:
  assumes "\<not> startsWith (toLowerCase (trim href)) (js ''mailto:'')"
  shows "parseMailto href = Inr \<lparr>to = Some [], subject = Some [], body = Some []\<rparr>"
  using assms by (simp add: parseMailto_def Let_def)

theorem parseMailto_non_mailto_witness:
  "\<not> startsWith (toLowerCase (trim (js ''hello''))) (js ''mailto:'') \<and>
   parseMailto (js ''hello'') = Inr \<lparr>to = Some [], subject = Some [], body = Some []\<rparr>"
proof -
  have h: "\<not> startsWith (toLowerCase (trim (js ''hello''))) (js ''mailto:'')"
    by (simp add: string_defs)
  from parseMailto_non_mailto [OF h] h show ?thesis by blast
qed

section \<open>A recipient that cannot be percent-decoded\<close>

text \<open>
  Claim C2: \<open>parseMailto\<close> never raises an error visible to its caller; when
  percent-decoding of the address part fails, the recipient falls back to the default
  address.  The code does otherwise: \<open>decodeURIComponent\<close> is called outside the \<open>try\<close>
  block, and on the link \<open>mailto:50%off@example.com\<close> its URIError leaves \<open>parseMailto\<close>.
  A click on an anchor with this link prevents the default action, throws, and opens
  nothing.
\<close>

theorem parseMailto_propagates_URIError:
  "parseMailto (js ''mailto:50%off@example.com'') = Inl URIError \<and>
   onClick doc [\<lparr>localName = js ''a'',
                 attributes = [(js ''href'', js ''mailto:50%off@example.com'')]\<rparr>] =
     \<lparr>defaultPrevented = True, thrown = Some URIError, page = doc\<rparr>"
  by (simp add: string_defs chooser_defs)

section \<open>UTF-8 decoding inverts UTF-8 encoding\<close>

lemma add_mod_const: "x < m \<Longrightarrow> k mod m = 0 \<Longrightarrow> (k + x) mod m = (x::nat)"
  by (metis mod_add_left_eq add_0 mod_less)

lemma split2:
  obtains a b :: nat where "cp = a * 64 + b" "b < 64" "cp div 64 = a" "cp mod 64 = b"
proof
  show "cp = (cp div 64) * 64 + cp mod 64" by simp
  show "cp mod 64 < 64" by simp
qed simp_all

lemma split3:
  obtains a b c :: nat where "cp = a * 4096 + b * 64 + c" "b < 64" "c < 64"
    "cp div 4096 = a" "(cp div 64) mod 64 = b" "cp mod 64 = c"
proof
  have "cp div 4096 = cp div 64 div 64"
    by (simp add: div_mult2_eq [symmetric])
  then have "(cp div 4096) * 64 + (cp div 64) mod 64 = cp div 64"
    by simp
  then have "((cp div 4096) * 64 + (cp div 64) mod 64) * 64 + cp mod 64 = cp"
    by simp
  then show "cp = (cp div 4096) * 4096 + ((cp div 64) mod 64) * 64 + cp mod 64"
    by (simp add: algebra_simps)
  show "(cp div 64) mod 64 < 64" "cp mod 64 < 64" by simp_all
qed simp_all

lemma split4:
  obtains a b c d :: nat where "cp = a * 262144 + b * 4096 + c * 64 + d" "b < 64" "c < 64" "d < 64"
    "cp div 262144 = a" "(cp div 4096) mod 64 = b" "(cp div 64) mod 64 = c" "cp mod 64 = d"
proof
  have 1: "cp div 4096 = cp div 64 div 64" "cp div 262144 = cp div 4096 div 64"
    by (simp_all add: div_mult2_eq [symmetric])
  have "(cp div 262144) * 64 + (cp div 4096) mod 64 = cp div 4096"
    using 1 by simp
  moreover have "(cp div 4096) * 64 + (cp div 64) mod 64 = cp div 64"
    using 1 by simp
  ultimately have "(((cp div 262144) * 64 + (cp div 4096) mod 64) * 64 + (cp div 64) mod 64) * 64 + cp mod 64 = cp"
    by simp
  then show "cp = (cp div 262144) * 262144 + ((cp div 4096) mod 64) * 4096 + ((cp div 64) mod 64) * 64 + cp mod 64"
    by (simp add: algebra_simps)
  show "(cp div 4096) mod 64 < 64" "(cp div 64) mod 64 < 64" "cp mod 64 < 64" by simp_all
qed simp_all

text \<open>The octets of a code point, by the number of octets.\<close>

lemma utf8_2:
  assumes "0x80 \<le> cp" "cp < 0x800"
  obtains a b where "utf8 cp = [0xC0 + a, 0x80 + b]" "cp = a * 64 + b" "2 \<le> a" "a < 32" "b < 64"
proof -
  obtain a b where s: "cp = a * 64 + b" "b < 64" "cp div 64 = a" "cp mod 64 = b"
    by (rule split2)
  have "2 \<le> a" "a < 32" using assms s(1,2) by linarith+
  moreover have "utf8 cp = [0xC0 + a, 0x80 + b]"
    using assms s(3,4) by (simp add: utf8_def)
  ultimately show ?thesis using that s by blast
qed

lemma utf8_3:
  assumes "0x800 \<le> cp" "cp < 0x10000"
  obtains a b c where "utf8 cp = [0xE0 + a, 0x80 + b, 0x80 + c]" "cp = a * 4096 + b * 64 + c"
    "a < 16" "b < 64" "c < 64" "a = 0 \<longrightarrow> 32 \<le> b"
proof -
  obtain a b c where s: "cp = a * 4096 + b * 64 + c" "b < 64" "c < 64"
    "cp div 4096 = a" "(cp div 64) mod 64 = b" "cp mod 64 = c"
    by (rule split3)
  have "a < 16" "a = 0 \<longrightarrow> 32 \<le> b" using assms s(1,2,3) by linarith+
  moreover have "utf8 cp = [0xE0 + a, 0x80 + b, 0x80 + c]"
    using assms s(4,5,6) by (simp add: utf8_def)
  ultimately show ?thesis using that s by blast
qed

lemma utf8_4:
  assumes "0x10000 \<le> cp" "cp < 0x110000"
  obtains a b c d where "utf8 cp = [0xF0 + a, 0x80 + b, 0x80 + c, 0x80 + d]"
    "cp = a * 262144 + b * 4096 + c * 64 + d"
    "a \<le> 4" "b < 64" "c < 64" "d < 64" "a = 0 \<longrightarrow> 16 \<le> b" "a = 4 \<longrightarrow> b < 16"
proof -
  obtain a b c d where s: "cp = a * 262144 + b * 4096 + c * 64 + d" "b < 64" "c < 64" "d < 64"
    "cp div 262144 = a" "(cp div 4096) mod 64 = b" "(cp div 64) mod 64 = c" "cp mod 64 = d"
    by (rule split4)
  have "a \<le> 4" "a = 0 \<longrightarrow> 16 \<le> b" "a = 4 \<longrightarrow> b < 16" using assms s(1,2,3,4) by linarith+
  moreover have "utf8 cp = [0xF0 + a, 0x80 + b, 0x80 + c, 0x80 + d]"
    using assms s(5,6,7,8) by (simp add: utf8_def)
  ultimately show ?thesis using that s by blast
qed

text \<open>Single steps of the UTF-8 decoder.\<close>

lemma utf8Decode_ascii:
  "b \<le> 0x7F \<Longrightarrow> utf8Decode 0 0 0x80 0xBF (b # bs) = b # utf8Decode 0 0 0x80 0xBF bs"
  by (simp add: utf8Decode.simps)

lemma utf8Decode_last:
  "lower \<le> b \<Longrightarrow> b \<le> upper \<Longrightarrow>
   utf8Decode cp 1 lower upper (b # bs) = (cp * 0x40 + b mod 0x40) # utf8Decode 0 0 0x80 0xBF bs"
  by (simp add: utf8Decode.simps)

lemma utf8Decode_cont:
  "lower \<le> b \<Longrightarrow> b \<le> upper \<Longrightarrow> 1 < n \<Longrightarrow>
   utf8Decode cp n lower upper (b # bs) = utf8Decode (cp * 0x40 + b mod 0x40) (n - 1) 0x80 0xBF bs"
  by (simp add: utf8Decode.simps)

lemma utf8Decode_utf8:
  assumes "isScalar cp"
  shows "utf8Decode 0 0 0x80 0xBF (utf8 cp @ bs) = cp # utf8Decode 0 0 0x80 0xBF bs"
proof -
  have "cp < 0x80 \<or> (0x80 \<le> cp \<and> cp < 0x800) \<or> (0x800 \<le> cp \<and> cp < 0x10000) \<or>
        (0x10000 \<le> cp \<and> cp < 0x110000)"
    using assms unfolding isScalar_def by linarith
  then consider "cp < 0x80" | "0x80 \<le> cp" "cp < 0x800" | "0x800 \<le> cp" "cp < 0x10000"
    | "0x10000 \<le> cp" "cp < 0x110000"
    by blast
  then show ?thesis
  proof cases
    case 1
    then show ?thesis by (simp add: utf8_def utf8Decode_ascii)
  next
    case 2
    then obtain a b where u: "utf8 cp = [0xC0 + a, 0x80 + b]" "cp = a * 64 + b"
      "2 \<le> a" "a < 32" "b < 64"
      by (rule utf8_2)
    have "utf8Decode 0 0 0x80 0xBF ((0xC0 + a) # (0x80 + b) # bs) =
          utf8Decode a 1 0x80 0xBF ((0x80 + b) # bs)"
      using u(3,4) by (simp add: utf8Decode.simps add_mod_const)
    also have "\<dots> = (a * 0x40 + b) # utf8Decode 0 0 0x80 0xBF bs"
      using u(5) by (subst utf8Decode_last) (auto simp: add_mod_const)
    finally have f: "utf8Decode 0 0 0x80 0xBF ((0xC0 + a) # (0x80 + b) # bs) =
        (a * 0x40 + b) # utf8Decode 0 0 0x80 0xBF bs" .
    show ?thesis unfolding u(1) using f u(2) by simp
  next
    case 3
    then obtain a b c where u: "utf8 cp = [0xE0 + a, 0x80 + b, 0x80 + c]"
      "cp = a * 4096 + b * 64 + c" "a < 16" "b < 64" "c < 64" "a = 0 \<longrightarrow> 32 \<le> b"
      by (rule utf8_3)
    have sur: "a = 13 \<longrightarrow> b < 32"
      using assms u(2,4,5) by (auto simp: isScalar_def)
    have "utf8Decode 0 0 0x80 0xBF ((0xE0 + a) # (0x80 + b) # (0x80 + c) # bs) =
          utf8Decode a 2 (if a = 0 then 0xA0 else 0x80) (if a = 13 then 0x9F else 0xBF)
            ((0x80 + b) # (0x80 + c) # bs)"
      using u(3) by (simp add: utf8Decode.simps add_mod_const)
    also have "\<dots> = utf8Decode (a * 0x40 + b) 1 0x80 0xBF ((0x80 + c) # bs)"
      using u(4,6) sur by (subst utf8Decode_cont) (auto simp: add_mod_const)
    also have "\<dots> = ((a * 0x40 + b) * 0x40 + c) # utf8Decode 0 0 0x80 0xBF bs"
      using u(5) by (subst utf8Decode_last) (auto simp: add_mod_const)
    finally have f: "utf8Decode 0 0 0x80 0xBF ((0xE0 + a) # (0x80 + b) # (0x80 + c) # bs) =
        ((a * 0x40 + b) * 0x40 + c) # utf8Decode 0 0 0x80 0xBF bs" .
    show ?thesis unfolding u(1) using f u(2) by (simp add: algebra_simps)
  next
    case 4
    then obtain a b c d where u: "utf8 cp = [0xF0 + a, 0x80 + b, 0x80 + c, 0x80 + d]"
      "cp = a * 262144 + b * 4096 + c * 64 + d"
      "a \<le> 4" "b < 64" "c < 64" "d < 64" "a = 0 \<longrightarrow> 16 \<le> b" "a = 4 \<longrightarrow> b < 16"
      by (rule utf8_4)
    have "utf8Decode 0 0 0x80 0xBF ((0xF0 + a) # (0x80 + b) # (0x80 + c) # (0x80 + d) # bs) =
          utf8Decode a 3 (if a = 0 then 0x90 else 0x80) (if a = 4 then 0x8F else 0xBF)
            ((0x80 + b) # (0x80 + c) # (0x80 + d) # bs)"
      using u(3) by (simp add: utf8Decode.simps add_mod_const)
    also have "\<dots> = utf8Decode (a * 0x40 + b) 2 0x80 0xBF ((0x80 + c) # (0x80 + d) # bs)"
      using u(4,7,8) by (subst utf8Decode_cont) (auto simp: add_mod_const)
    also have "\<dots> = utf8Decode ((a * 0x40 + b) * 0x40 + c) 1 0x80 0xBF ((0x80 + d) # bs)"
      using u(5) by (subst utf8Decode_cont) (auto simp: add_mod_const)
    also have "\<dots> = (((a * 0x40 + b) * 0x40 + c) * 0x40 + d) # utf8Decode 0 0 0x80 0xBF bs"
      using u(6) by (subst utf8Decode_last) (auto simp: add_mod_const)
    finally have f: "utf8Decode 0 0 0x80 0xBF ((0xF0 + a) # (0x80 + b) # (0x80 + c) # (0x80 + d) # bs) =
        (((a * 0x40 + b) * 0x40 + c) * 0x40 + d) # utf8Decode 0 0 0x80 0xBF bs" .
    show ?thesis unfolding u(1) using f u(2) by (simp add: algebra_simps)
  qed
qed

lemma utf8Decode_concat_utf8:
  "list_all isScalar cps \<Longrightarrow> utf8Decode 0 0 0x80 0xBF (concat (map utf8 cps)) = cps"
  by (induction cps) (simp_all add: utf8Decode_utf8 utf8Decode.simps)

section \<open>\<open>decodeURIComponent\<close> inverts \<open>encodeURIComponent\<close>\<close>



lemma unat_of_nat16: "n < 65536 \<Longrightarrow> unat (of_nat n :: 16 word) = n"
  by (simp add: unat_of_nat)

lemma unat_hexDigit: "d < 16 \<Longrightarrow> unat (hexDigit d) = (if d < 10 then 0x30 + d else 0x37 + d)"
  unfolding hexDigit_def by (simp add: unat_of_nat16 del: of_nat_add of_nat_numeral)






lemma length_concat_pct: "length (concat (map pct bs)) = 3 * length bs"
  by (induction bs) (simp_all add: pct_def)


lemma unat_lt_65536: "unat (c :: 16 word) < 65536"
proof -
  have "unat c < 2 ^ LENGTH(16)" by (rule unsigned_less)
  then show ?thesis by simp
qed

lemma utf16_unat: "utf16 (unat (c :: 16 word)) = [c]"
  by (simp add: utf16_def unat_lt_65536)

lemma pair_div_mod:
  assumes "y < (0x400::nat)"
  shows "(x * 0x400 + y) div 0x400 = x" "(x * 0x400 + y) mod 0x400 = y"
  using assms by simp_all

lemma utf16_pair:
  assumes "isLead c" "isTrail d"
  shows "utf16 (pairCodePoint c d) = [c, d]"
proof -
  define x where "x = unat c - 0xD800"
  define y where "y = unat d - 0xDC00"
  have c: "unat c = 0xD800 + x" and d: "unat d = 0xDC00 + y" and y: "y < 0x400"
    using assms by (auto simp: x_def y_def isLead_def isTrail_def word_cmp)
  have p: "pairCodePoint c d = x * 0x400 + y + 0x10000"
    by (simp add: pairCodePoint_def x_def y_def)
  have "of_nat (0xD800 + x) = c" "of_nat (0xDC00 + y) = d"
    using c [symmetric] d [symmetric] by (simp_all del: of_nat_add of_nat_numeral)
  then show ?thesis
    unfolding utf16_def p using y by (simp add: pair_div_mod del: of_nat_add of_nat_numeral)
qed

lemma isScalar_unat: "\<not> isSurrogate c \<Longrightarrow> isScalar (unat c)"
  using unat_lt_65536 [of c] by (simp add: isScalar_def isSurrogate_def word_cmp)

lemma isScalar_pair:
  assumes "isLead c" "isTrail d"
  shows "isScalar (pairCodePoint c d)"
proof -
  have "unat c \<le> 0xDBFF" "unat d \<le> 0xDFFF" "0xD800 \<le> unat c" "0xDC00 \<le> unat d"
    using assms by (simp_all add: isLead_def isTrail_def word_cmp)
  then show ?thesis
    unfolding isScalar_def pairCodePoint_def by linarith
qed



section \<open>Form decoding of a query value\<close>

lemma percentDecode_Cons: "p \<noteq> 0x25 \<Longrightarrow> percentDecode (p # bs) = p # percentDecode bs"
  by (cases bs rule: percentDecode.cases) auto

lemma percentDecode_append:
  "0x25 \<notin> set xs \<Longrightarrow> percentDecode (xs @ ys) = xs @ percentDecode ys"
  by (induction xs) (simp_all add: percentDecode_Cons)

lemma utf8_bytes:
  assumes "b \<in> set (utf8 cp)" "cp < 0x110000"
  shows "(cp < 0x80 \<and> b = cp) \<or> (0x80 \<le> cp \<and> 0x80 \<le> b \<and> b < 256)"
proof -
  have "cp < 0x80 \<or> (0x80 \<le> cp \<and> cp < 0x800) \<or> (0x800 \<le> cp \<and> cp < 0x10000) \<or>
        (0x10000 \<le> cp \<and> cp < 0x110000)"
    using assms(2) by linarith
  then consider "cp < 0x80" | "0x80 \<le> cp" "cp < 0x800" | "0x800 \<le> cp" "cp < 0x10000"
    | "0x10000 \<le> cp" "cp < 0x110000"
    by blast
  then show ?thesis
  proof cases
    case 1
    with assms show ?thesis by (simp add: utf8_def)
  next
    case 2
    then obtain a b' where "utf8 cp = [0xC0 + a, 0x80 + b']" "a < 32" "b' < 64"
      by (rule utf8_2)
    with assms 2 show ?thesis by auto
  next
    case 3
    then obtain a b' c where "utf8 cp = [0xE0 + a, 0x80 + b', 0x80 + c]" "a < 16" "b' < 64" "c < 64"
      by (rule utf8_3)
    with assms 3 show ?thesis by auto
  next
    case 4
    then obtain a b' c d where "utf8 cp = [0xF0 + a, 0x80 + b', 0x80 + c, 0x80 + d]"
      "a \<le> 4" "b' < 64" "c < 64" "d < 64"
      by (rule utf8_4)
    with assms 4 show ?thesis by auto
  qed
qed

lemma utf8_plus:
  assumes "isScalar cp"
  shows "map (\<lambda>b. if b = 0x2B then 0x20 else b) (utf8 cp) = utf8 (if cp = 0x2B then 0x20 else cp)"
proof (cases "cp < 0x80")
  case True
  then show ?thesis by (simp add: utf8_def)
next
  case False
  have "\<forall>b\<in>set (utf8 cp). b \<noteq> 0x2B"
    using utf8_bytes [of _ cp] assms False by (fastforce simp: isScalar_def)
  then have "map (\<lambda>b. if b = 0x2B then 0x20 else b) (utf8 cp) = utf8 cp"
    by (simp add: map_idI)
  with False show ?thesis by auto
qed

lemma utf8_no_percent:
  assumes "isScalar cp" "cp \<noteq> 0x25"
  shows "0x25 \<notin> set (utf8 cp)"
  using utf8_bytes [of "0x25" cp] assms by (auto simp: isScalar_def)

lemma formComponent_utf8:
  assumes "isScalar cp" "cp \<noteq> 0x25"
  shows "formComponent (utf8 cp @ bs) = utf16 (if cp = 0x2B then 0x20 else cp) @ formComponent bs"
proof -
  let ?cp = "if cp = 0x2B then 0x20 else cp"
  have s: "isScalar ?cp" "?cp \<noteq> 0x25"
    using assms by (auto simp: isScalar_def)
  show ?thesis
    unfolding formComponent_def utf8DecodeWithoutBOM_def
    using utf8_plus [OF assms(1)] utf8_no_percent [OF s] utf8Decode_utf8 [OF s(1)]
    by (simp add: percentDecode_append)
qed

lemma formComponent_Nil: "formComponent [] = []"
  by (simp add: formComponent_def utf8DecodeWithoutBOM_def utf8Decode.simps)

lemma unat_eq_numeral_iff: "unat (c :: 16 word) = 0x25 \<longleftrightarrow> c = 0x25"
  "unat (c :: 16 word) = 0x2B \<longleftrightarrow> c = 0x2B"
  by (auto simp: word_unat_eq_iff)

lemma pair_ge: "0x10000 \<le> pairCodePoint c d"
  by (simp add: pairCodePoint_def)

lemma formValue_plain:
  "wellFormed v \<Longrightarrow> 0x25 \<notin> set v \<Longrightarrow> formValue v = map plusToSpace v"
proof (induction v rule: wellFormed.induct)
  case 1
  show ?case by (simp add: formValue_def formComponent_Nil)
next
  case (2 c)
  then have "isScalar (unat c)" "unat c \<noteq> 0x25"
    by (simp_all add: isScalar_unat unat_eq_numeral_iff)
  from formComponent_utf8 [OF this, of "[]"] 2 show ?case
    by (simp add: formValue_def formComponent_Nil utf16_def unat_lt_65536 plusToSpace_def
        unat_eq_numeral_iff)
next
  case (3 c d s)
  show ?case
  proof (cases "isLead c")
    case True
    with 3 have d: "isTrail d" and s: "wellFormed s" "0x25 \<notin> set s" by simp_all
    have p: "isScalar (pairCodePoint c d)" "pairCodePoint c d \<noteq> 0x25" "pairCodePoint c d \<noteq> 0x2B"
      using isScalar_pair [OF True d] pair_ge [of c d] by simp_all
    have n: "c \<noteq> 0x2B" "d \<noteq> 0x2B"
      using True d by (auto simp: isLead_def isTrail_def)
    from 3(1) [OF True s] formComponent_utf8 [OF p(1,2)] True d p(3) n show ?thesis
      by (simp add: formValue_def utf16_pair plusToSpace_def)
  next
    case False
    with 3 have c: "\<not> isSurrogate c" and s: "wellFormed (d # s)" "0x25 \<notin> set (d # s)"
      and c25: "c \<noteq> 0x25" by simp_all
    have p: "isScalar (unat c)" "unat c \<noteq> 0x25"
      using c c25 by (simp_all add: isScalar_unat unat_eq_numeral_iff)
    from 3(2) [OF False s] formComponent_utf8 [OF p] False c show ?thesis
      by (simp add: formValue_def utf16_def unat_lt_65536 plusToSpace_def unat_eq_numeral_iff)
  qed
qed

lemma toUSV_Cons:
  "\<not> isSurrogate c \<Longrightarrow> toUSV (c # s) = unat c # toUSV s"
  by (cases s) (auto simp: isLead_def isSurrogate_def word_cmp)

lemma ascii_not_surrogate: "c < 0x80 \<Longrightarrow> \<not> isSurrogate c"
  by (simp add: isSurrogate_def word_cmp)

lemma bytes_ascii_Cons:
  "c < 0x80 \<Longrightarrow> concat (map utf8 (toUSV (c # s))) = unat c # concat (map utf8 (toUSV s))"
  by (simp add: toUSV_Cons ascii_not_surrogate) (simp add: utf8_def word_cmp)

lemma bytes_ascii_append:
  "\<forall>u\<in>set a. u < 0x80 \<Longrightarrow>
   concat (map utf8 (toUSV (a @ s))) = map unat a @ concat (map utf8 (toUSV s))"
  by (induction a) (simp_all add: bytes_ascii_Cons)

lemma hexDigit_facts:
  assumes "d < 16"
  shows "hexDigit d < 0x80" "unat (hexDigit d) \<noteq> 0x2B" "isHexByte (unat (hexDigit d))"
    "hexByteValue (unat (hexDigit d)) = d"
  using assms by (simp_all add: word_cmp unat_hexDigit isHexByte_def hexByteValue_def)

lemma pct_facts:
  assumes "b < 256"
  shows "\<forall>u\<in>set (pct b). u < 0x80"
    "map (\<lambda>b. if b = 0x2B then 0x20 else b) (map unat (pct b)) = map unat (pct b)"
    "percentDecode (map unat (pct b) @ Y) = b # percentDecode Y"
proof -
  have d: "b div 16 < 16" "b mod 16 < 16"
    using assms by (simp_all add: less_mult_imp_div_less)
  show "\<forall>u\<in>set (pct b). u < 0x80"
    using hexDigit_facts(1) [OF d(1)] hexDigit_facts(1) [OF d(2)] by (simp add: pct_def)
  show "map (\<lambda>b. if b = 0x2B then 0x20 else b) (map unat (pct b)) = map unat (pct b)"
    using hexDigit_facts(2) [OF d(1)] hexDigit_facts(2) [OF d(2)] by (simp add: pct_def)
  show "percentDecode (map unat (pct b) @ Y) = b # percentDecode Y"
    using hexDigit_facts(3,4) [OF d(1)] hexDigit_facts(3,4) [OF d(2)] by (simp add: pct_def)
qed

lemma pcts_facts:
  assumes "list_all (\<lambda>b. b < 256) bs"
  shows "\<forall>u\<in>set (concat (map pct bs)). u < 0x80"
    "map (\<lambda>b. if b = 0x2B then 0x20 else b) (map unat (concat (map pct bs))) =
       map unat (concat (map pct bs))"
    "percentDecode (map unat (concat (map pct bs)) @ Y) = bs @ percentDecode Y"
  using assms
proof (induction bs)
  case Nil
  {
    case 1 show ?case by simp
  next
    case 2 show ?case by simp
  next
    case 3 show ?case by simp
  }
next
  case (Cons b bs)
  {
    case 1
    with Cons(1) pct_facts(1) [of b] show ?case by auto
  next
    case 2
    with Cons(2) pct_facts(2) [of b] show ?case by simp
  next
    case 3
    with Cons(3) pct_facts(3) [of b] show ?case by simp
  }
qed

lemma utf8_bytes_lt256: "isScalar cp \<Longrightarrow> list_all (\<lambda>b. b < 256) (utf8 cp)"
  using utf8_bytes [of _ cp] by (fastforce simp: list_all_iff isScalar_def)

lemma formValue_pct_utf8:
  assumes "isScalar cp"
  shows "formValue (concat (map pct (utf8 cp)) @ E) = utf16 cp @ formValue E"
proof -
  note f = pcts_facts [OF utf8_bytes_lt256 [OF assms]]
  show ?thesis
    unfolding formValue_def formComponent_def utf8DecodeWithoutBOM_def
    by (simp add: bytes_ascii_append [OF f(1)] f(2,3) utf8Decode_utf8 [OF assms] del: map_map)
qed

lemma formValue_unreserved:
  assumes "unreserved c"
  shows "formValue (c # E) = c # formValue E"
proof -
  have c: "c < 0x80" "c \<noteq> 0x25" "c \<noteq> 0x2B"
    using assms by (auto simp: unreserved_def word_cmp)
  then have u: "isScalar (unat c)" "unat c \<noteq> 0x25" "unat c \<noteq> 0x2B"
    by (simp_all add: isScalar_unat ascii_not_surrogate unat_eq_numeral_iff)
  show ?thesis
    unfolding formValue_def
    using formComponent_utf8 [OF u(1,2)] u(3) c(1)
    by (simp add: toUSV_Cons ascii_not_surrogate utf16_unat)
qed

lemma formValue_Nil: "formValue [] = []"
  by (simp add: formValue_def formComponent_Nil)

lemma formValue_encode: "encodeURIComponent s = Inr E \<Longrightarrow> formValue E = s"
proof (induction s arbitrary: E rule: encodeURIComponent.induct)
  case 1
  then show ?case by (simp add: formValue_Nil)
next
  case (2 c s)
  show ?case
  proof (cases "unreserved c")
    case True
    with 2(4) obtain E' where E: "encodeURIComponent s = Inr E'" "E = c # E'"
      by (auto simp: map_sum_eq_Inr)
    from 2(1) [OF True E(1)] True E(2) show ?thesis
      by (simp add: formValue_unreserved)
  next
    case False
    note nu = this
    show ?thesis
    proof (cases "isSurrogate c")
      case False
      with nu 2(4) obtain E' where E: "encodeURIComponent s = Inr E'"
        "E = concat (map pct (utf8 (unat c))) @ E'"
        by (auto simp: map_sum_eq_Inr)
      from 2(2) [OF nu False E(1)] show ?thesis
        unfolding E(2) by (simp add: formValue_pct_utf8 isScalar_unat False utf16_unat)
    next
      case True
      with nu 2(4) obtain d r E' where E: "\<not> isTrail c" "s = d # r" "isTrail d"
        "encodeURIComponent r = Inr E'"
        "E = concat (map pct (utf8 (pairCodePoint c d))) @ E'"
        by (auto simp: map_sum_eq_Inr split: if_splits list.splits)
      have lead: "isLead c"
        using True E(1) by (auto simp: isSurrogate_def isLead_def isTrail_def word_cmp)
      from 2(3) [OF nu _ E(1,2,3,4)] True have "formValue E' = r"
        by simp
      then show ?thesis
        unfolding E(5) E(2) by (simp add: formValue_pct_utf8 isScalar_pair lead E(3) utf16_pair)
    qed
  qed
qed

section \<open>The parts of a \<open>mailto:\<close> link\<close>

lemma dropWhile_hd: "s \<noteq> [] \<Longrightarrow> \<not> P (hd s) \<Longrightarrow> dropWhile P s = s"
  by (cases s) simp_all

lemma trim_id:
  assumes "s \<noteq> []" "\<not> isWhiteSpace (hd s)" "\<not> isWhiteSpace (last s)"
  shows "trim s = s"
proof -
  have "dropWhile isWhiteSpace (rev s) = rev s"
    using assms by (intro dropWhile_hd) (simp_all add: hd_rev)
  then show ?thesis
    using assms by (simp add: trim_def dropWhile_hd)
qed

lemma indexOf_found: "c \<notin> set a \<Longrightarrow> indexOf (a @ c # q) c = int (length a)"
  by (induction a) (auto simp: Let_def)

lemma indexOf_absent: "c \<notin> set a \<Longrightarrow> indexOf a c = - 1"
  by (induction a) (auto simp: Let_def)

lemma mailto_prefix:
  "startsWith (toLowerCase (js ''mailto:'' @ X)) (js ''mailto:'')"
  "drop 7 (js ''mailto:'' @ X) = X"
  "js ''mailto:'' @ X \<noteq> []"
  "\<not> isWhiteSpace (hd (js ''mailto:'' @ X))"
  by (simp_all add: startsWith_def toLowerCase_def js_def lowerUnit_def isWhiteSpace_def)


lemma parseMailto_mailto:
  assumes "\<not> isWhiteSpace (last (js ''mailto:'' @ rest))"
  shows "parseMailto (js ''mailto:'' @ rest) =
     (let qIndex = indexOf rest 0x3F;
          toPart = (if qIndex \<ge> 0 then take (nat qIndex) rest else rest);
          query = (if qIndex \<ge> 0 then drop (nat (qIndex + 1)) rest else [])
      in (case decodeURIComponent (or_str toPart []) of
            Inl e \<Rightarrow> Inl e
          | Inr d \<Rightarrow>
              let out = \<lparr>to = Some (or_str (trim d) DEFAULT_TO), subject = Some [],
                          body = Some []\<rparr> in
              if query \<noteq> [] then
                let params = URLSearchParams query in
                Inr (out\<lparr>subject :=
                           or_val (or_val (get params (js ''subject'')) (get params (js ''su'')))
                             (Some []),
                         body := or_val (get params (js ''body'')) (Some [])\<rparr>)
              else Inr out))"
proof -
  have t: "trim (js ''mailto:'' @ rest) = js ''mailto:'' @ rest"
    by (rule trim_id) (simp_all only: mailto_prefix assms not_False_eq_True)
  show ?thesis
    unfolding parseMailto_def t
    by (simp only: mailto_prefix if_False not_True_eq_False Let_def payload.simps)
qed

lemma parseMailto_query:
  assumes "0x3F \<notin> set addr" "q \<noteq> []" "\<not> isWhiteSpace (last q)"
  shows "parseMailto (js ''mailto:'' @ addr @ 0x3F # q) =
     (case decodeURIComponent addr of
        Inl e \<Rightarrow> Inl e
      | Inr d \<Rightarrow>
          Inr \<lparr>to = Some (or_str (trim d) DEFAULT_TO),
               subject = or_val (or_val (get (URLSearchParams q) (js ''subject''))
                                   (get (URLSearchParams q) (js ''su''))) (Some []),
               body = or_val (get (URLSearchParams q) (js ''body'')) (Some [])\<rparr>)"
proof -
  have l: "\<not> isWhiteSpace (last (js ''mailto:'' @ addr @ 0x3F # q))"
    using assms(2,3) by simp
  have i: "indexOf (addr @ 0x3F # q) 0x3F = int (length addr)"
    using assms(1) by (rule indexOf_found)
  have o: "or_str addr [] = addr"
    by (simp add: or_str_def)
  show ?thesis
    unfolding parseMailto_mailto [OF l] i Let_def
    using assms(2) by (cases "decodeURIComponent addr") (simp_all add: o nat_add_distrib)
qed

lemma parseMailto_no_query:
  assumes "0x3F \<notin> set addr" "addr = [] \<or> \<not> isWhiteSpace (last addr)"
  shows "parseMailto (js ''mailto:'' @ addr) =
     (case decodeURIComponent addr of
        Inl e \<Rightarrow> Inl e
      | Inr d \<Rightarrow> Inr \<lparr>to = Some (or_str (trim d) DEFAULT_TO), subject = Some [], body = Some []\<rparr>)"
proof -
  have l: "\<not> isWhiteSpace (last (js ''mailto:'' @ addr))"
    using assms(2) by (auto simp: js_def isWhiteSpace_def)
  have i: "indexOf addr 0x3F = - 1"
    using assms(1) by (rule indexOf_absent)
  have o: "or_str addr [] = addr"
    by (simp add: or_str_def)
  show ?thesis
    unfolding parseMailto_mailto [OF l] i Let_def
    by (cases "decodeURIComponent addr") (simp_all add: o)
qed

lemma toUSV_append_Cons:
  "\<not> isSurrogate c \<Longrightarrow> toUSV (a @ c # b) = toUSV a @ unat c # toUSV b"
proof (induction a rule: toUSV.induct)
  case 1
  then show ?case by (simp add: toUSV_Cons)
next
  case (2 x)
  then show ?case by (auto simp: toUSV_Cons surrogate_cases)
next
  case (3 x y s)
  then show ?case by simp
qed

lemma bytes_append_Cons:
  assumes "c < 0x80"
  shows "concat (map utf8 (toUSV (a @ c # b))) =
         concat (map utf8 (toUSV a)) @ unat c # concat (map utf8 (toUSV b))"
proof -
  have "utf8 (unat c) = [unat c]"
    using assms by (simp add: utf8_def word_cmp)
  then show ?thesis
    by (simp add: toUSV_append_Cons ascii_not_surrogate assms)
qed

lemma isScalar_FFFD: "isScalar 0xFFFD"
  by (simp add: isScalar_def)

lemma toUSV_scalar: "list_all isScalar (toUSV s)"
  by (induction s rule: toUSV.induct)
     (auto simp: isScalar_pair isScalar_unat isScalar_FFFD)

lemma toUSV_ascii:
  assumes "x \<in> set (toUSV s)" "x < 0x80"
  shows "\<exists>u\<in>set s. unat u = x"
  using assms
proof (induction s rule: toUSV.induct)
  case 1
  then show ?case by simp
next
  case (2 c)
  then show ?case by (auto split: if_splits)
next
  case (3 c d s)
  show ?case
  proof (cases "isLead c \<and> isTrail d")
    case True
    with 3(4,5) pair_ge [of c d] have "x \<in> set (toUSV s)" by auto
    with 3(1) True 3(5) show ?thesis by auto
  next
    case False
    with 3(4,5) have "x = unat c \<or> x \<in> set (toUSV (d # s))"
      by (auto split: if_splits)
    with 3(2,3) False 3(5) show ?thesis by (auto split: if_splits)
  qed
qed

lemma bytes_ascii:
  assumes "b \<in> set (concat (map utf8 (toUSV s)))" "b < 0x80"
  shows "\<exists>u\<in>set s. unat u = b"
proof -
  from assms(1) obtain cp where cp: "cp \<in> set (toUSV s)" "b \<in> set (utf8 cp)"
    by auto
  have "isScalar cp"
    using toUSV_scalar [of s] cp(1) by (simp add: list_all_iff)
  with utf8_bytes [OF cp(2)] assms(2) have "cp = b"
    by (auto simp: isScalar_def)
  with cp(1) assms(2) show ?thesis
    by (auto dest: toUSV_ascii)
qed

lemma bytes_no_amp:
  assumes "0x26 \<notin> set s"
  shows "0x26 \<notin> set (concat (map utf8 (toUSV s)))"
proof
  assume "0x26 \<in> set (concat (map utf8 (toUSV s)))"
  then obtain u where "u \<in> set s" "unat u = 0x26"
    using bytes_ascii [of "0x26" s] by auto
  then have "u = 0x26" by (simp add: word_unat_eq_iff)
  with \<open>u \<in> set s\<close> assms show False by simp
qed

lemma bytes_no_eq:
  assumes "0x3D \<notin> set s"
  shows "0x3D \<notin> set (concat (map utf8 (toUSV s)))"
proof
  assume "0x3D \<in> set (concat (map utf8 (toUSV s)))"
  then obtain u where "u \<in> set s" "unat u = 0x3D"
    using bytes_ascii [of "0x3D" s] by auto
  then have "u = 0x3D" by (simp add: word_unat_eq_iff)
  with \<open>u \<in> set s\<close> assms show False by simp
qed

lemma splitOn_append: "d \<notin> set p \<Longrightarrow> splitOn d (p @ d # R) = p # splitOn d R"
  by (induction p) (auto split: list.splits)

lemma splitOn_single: "d \<notin> set p \<Longrightarrow> splitOn d p = [p]"
  by (induction p) (auto split: list.splits)

lemma formPair_eq:
  "0x3D \<notin> set k \<Longrightarrow> formPair (k @ 0x3D # v) = (formComponent k, formComponent v)"
  by (simp add: formPair_def takeWhile_append1 dropWhile_append3 takeWhile_eq_all_conv
      dropWhile_append takeWhile_append)

lemma parseUrlencoded_last:
  assumes "0x3D \<notin> set k" "0x26 \<notin> set k" "0x26 \<notin> set v"
  shows "parseUrlencoded (k @ 0x3D # v) = [(formComponent k, formComponent v)]"
  using assms by (simp add: parseUrlencoded_def splitOn_single formPair_eq)

lemma parseUrlencoded_more:
  assumes "0x3D \<notin> set k" "0x26 \<notin> set k" "0x26 \<notin> set v"
  shows "parseUrlencoded (k @ 0x3D # v @ 0x26 # R) =
         (formComponent k, formComponent v) # parseUrlencoded R"
proof -
  have "splitOn 0x26 ((k @ 0x3D # v) @ 0x26 # R) = (k @ 0x3D # v) # splitOn 0x26 R"
    using assms by (intro splitOn_append) simp
  then show ?thesis
    using assms(1) by (simp add: parseUrlencoded_def formPair_eq)
qed

lemma hd_toUSV:
  assumes "s \<noteq> []" "hd s \<noteq> 0x3F"
  shows "(case toUSV s of [] \<Rightarrow> [] | c # cs \<Rightarrow> if c = 0x3F then cs else toUSV s) = toUSV s"
proof (cases s rule: toUSV.cases)
  case 1
  with assms show ?thesis by simp
next
  case (2 c)
  with assms show ?thesis by (auto simp: word_unat_eq_iff)
next
  case (3 c d r)
  with assms pair_ge [of c d] show ?thesis by (auto simp: word_unat_eq_iff)
qed

lemma URLSearchParams_eq:
  "s \<noteq> [] \<Longrightarrow> hd s \<noteq> 0x3F \<Longrightarrow> URLSearchParams s = parseUrlencoded (concat (map utf8 (toUSV s)))"
  by (simp add: URLSearchParams_def Let_def hd_toUSV)

lemma URLSearchParams_one:
  assumes "k \<noteq> []" "hd k \<noteq> 0x3F" "0x3D \<notin> set k" "0x26 \<notin> set k" "0x26 \<notin> set v"
  shows "URLSearchParams (k @ 0x3D # v) = [(formValue k, formValue v)]"
proof -
  have "URLSearchParams (k @ 0x3D # v) = parseUrlencoded (concat (map utf8 (toUSV (k @ 0x3D # v))))"
    using assms(1,2) by (intro URLSearchParams_eq) simp_all
  then show ?thesis
    using parseUrlencoded_last [OF bytes_no_eq [OF assms(3)] bytes_no_amp [OF assms(4)]
        bytes_no_amp [OF assms(5)]]
    by (simp add: bytes_append_Cons formValue_def)
qed

lemma URLSearchParams_two:
  assumes "k \<noteq> []" "hd k \<noteq> 0x3F" "0x3D \<notin> set k" "0x26 \<notin> set k" "0x26 \<notin> set v"
    "0x3D \<notin> set k'" "0x26 \<notin> set k'" "0x26 \<notin> set v'"
  shows "URLSearchParams (k @ 0x3D # v @ 0x26 # k' @ 0x3D # v') =
         [(formValue k, formValue v), (formValue k', formValue v')]"
proof -
  have "URLSearchParams (k @ 0x3D # v @ 0x26 # k' @ 0x3D # v') =
      parseUrlencoded (concat (map utf8 (toUSV (k @ 0x3D # v @ 0x26 # k' @ 0x3D # v'))))"
    using assms(1,2) by (intro URLSearchParams_eq) simp_all
  then show ?thesis
    using parseUrlencoded_more [OF bytes_no_eq [OF assms(3)] bytes_no_amp [OF assms(4)]
        bytes_no_amp [OF assms(5)]]
      parseUrlencoded_last [OF bytes_no_eq [OF assms(6)] bytes_no_amp [OF assms(7)]
        bytes_no_amp [OF assms(8)]]
    by (simp add: bytes_append_Cons formValue_def)
qed

section \<open>Decomposing a well-formed link\<close>

lemma key_facts:
  "formValue (js ''subject'') = js ''subject''"
  "formValue (js ''su'') = js ''su''"
  "formValue (js ''body'') = js ''body''"
  by (simp_all add: formValue_def string_defs)

lemma query_shapes:
  "js ''?subject='' @ S @ js ''&body='' @ B =
     0x3F # (js ''subject'' @ 0x3D # S @ 0x26 # js ''body'' @ 0x3D # B)"
  "js ''?subject='' @ S @ js ''&su='' @ B =
     0x3F # (js ''subject'' @ 0x3D # S @ 0x26 # js ''su'' @ 0x3D # B)"
  "js ''?su='' @ S @ js ''&subject='' @ B =
     0x3F # (js ''su'' @ 0x3D # S @ 0x26 # js ''subject'' @ 0x3D # B)"
  "js ''?subject='' @ S = 0x3F # (js ''subject'' @ 0x3D # S)"
  "js ''?su='' @ S = 0x3F # (js ''su'' @ 0x3D # S)"
  by (simp_all add: js_def)

lemma last_value:
  "S = [] \<or> \<not> isWhiteSpace (last S) \<Longrightarrow> \<not> isWhiteSpace (last (x @ 0x3D # S))"
  by (auto simp: isWhiteSpace_def)

lemma params_two:
  assumes "0x26 \<notin> set S" "0x26 \<notin> set B"
  shows "URLSearchParams (js ''subject'' @ 0x3D # S @ 0x26 # js ''body'' @ 0x3D # B) =
           [(js ''subject'', formValue S), (js ''body'', formValue B)]"
    "URLSearchParams (js ''subject'' @ 0x3D # S @ 0x26 # js ''su'' @ 0x3D # B) =
           [(js ''subject'', formValue S), (js ''su'', formValue B)]"
    "URLSearchParams (js ''su'' @ 0x3D # S @ 0x26 # js ''subject'' @ 0x3D # B) =
           [(js ''su'', formValue S), (js ''subject'', formValue B)]"
    "URLSearchParams (js ''subject'' @ 0x3D # S) = [(js ''subject'', formValue S)]"
    "URLSearchParams (js ''su'' @ 0x3D # S) = [(js ''su'', formValue S)]"
proof -
  show "URLSearchParams (js ''subject'' @ 0x3D # S @ 0x26 # js ''body'' @ 0x3D # B) =
           [(js ''subject'', formValue S), (js ''body'', formValue B)]"
    by (subst URLSearchParams_two) (simp_all add: assms key_facts, simp_all add: js_def)
  show "URLSearchParams (js ''subject'' @ 0x3D # S @ 0x26 # js ''su'' @ 0x3D # B) =
           [(js ''subject'', formValue S), (js ''su'', formValue B)]"
    by (subst URLSearchParams_two) (simp_all add: assms key_facts, simp_all add: js_def)
  show "URLSearchParams (js ''su'' @ 0x3D # S @ 0x26 # js ''subject'' @ 0x3D # B) =
           [(js ''su'', formValue S), (js ''subject'', formValue B)]"
    by (subst URLSearchParams_two) (simp_all add: assms key_facts, simp_all add: js_def)
  show "URLSearchParams (js ''subject'' @ 0x3D # S) = [(js ''subject'', formValue S)]"
    by (subst URLSearchParams_one) (simp_all add: assms key_facts, simp_all add: js_def)
  show "URLSearchParams (js ''su'' @ 0x3D # S) = [(js ''su'', formValue S)]"
    by (subst URLSearchParams_one) (simp_all add: assms key_facts, simp_all add: js_def)
qed

lemma get_keys:
  "get ((js ''subject'', v) # ps) (js ''subject'') = Some v"
  "get ((js ''su'', v) # ps) (js ''su'') = Some v"
  "get ((js ''body'', v) # ps) (js ''body'') = Some v"
  "get ((js ''subject'', v) # ps) (js ''su'') = get ps (js ''su'')"
  "get ((js ''subject'', v) # ps) (js ''body'') = get ps (js ''body'')"
  "get ((js ''su'', v) # ps) (js ''subject'') = get ps (js ''subject'')"
  "get ((js ''su'', v) # ps) (js ''body'') = get ps (js ''body'')"
  "get ((js ''body'', v) # ps) (js ''subject'') = get ps (js ''subject'')"
  "get ((js ''body'', v) # ps) (js ''su'') = get ps (js ''su'')"
  "get [] k = None"
  by (simp_all add: get_def js_def)

lemma or_val_simps:
  "or_val (Some v) x = (if v \<noteq> [] then Some v else x)"
  "or_val None x = x"
  by (simp_all add: or_val_def truthy_def)

text \<open>
  Claim C3 as stated: on every well-formed link \<open>mailto:addr?subject=S&body=B\<close> the
  decomposer returns the percent-decoded \<open>addr\<close> as recipient, \<open>S\<close> as subject and \<open>B\<close>
  as body.  It fails on a subject with a \<open>+\<close>, which percent-decoding leaves alone
  and the decomposer turns into a space.
\<close>

theorem parseMailto_recovers_parts_counterexample:
  "parseMailto (js ''mailto:a@b.c?subject=1+1&body=x'') =
     Inr \<lparr>to = Some (js ''a@b.c''), subject = Some (js ''1 1''), body = Some (js ''x'')\<rparr> \<and>
   js ''1 1'' \<noteq> js ''1+1'' \<and>
   decodeURIComponent (js ''1+1'') = Inr (js ''1+1'')"
  by (simp add: string_defs chooser_defs)

text \<open>
  Claim C3, amended: on a well-formed link \<open>mailto:addr?subject=S&body=B\<close> the
  decomposer returns the percent-decoded \<open>addr\<close> as recipient and, as subject and body,
  what \<open>URLSearchParams\<close> reads from \<open>S\<close> and \<open>B\<close>: every \<open>+\<close> is a space, then the
  percent-escapes are decoded.  Well-formed means: no \<open>?\<close> in \<open>addr\<close>, which decodes to
  a non-empty text without surrounding white space, no \<open>&\<close> in \<open>S\<close> or \<open>B\<close>, and no
  white space at the end of the link.  So a text that \<open>encodeURIComponent\<close> turned into
  \<open>S\<close> is recovered exactly, and \<open>S\<close> is returned as it is when it is well formed and
  has neither \<open>%\<close> nor \<open>+\<close>.  The key \<open>su\<close> gives the subject exactly when \<open>subject\<close> is
  absent or has an empty value, wherever the two keys stand.
\<close>

theorem parseMailto_recovers_parts:
  assumes "0x3F \<notin> set addr" and "decodeURIComponent addr = Inr d" and "d \<noteq> []" and "trim d = d"
    and "0x26 \<notin> set S" and "0x26 \<notin> set B"
    and "S = [] \<or> \<not> isWhiteSpace (last S)" and "B = [] \<or> \<not> isWhiteSpace (last B)"
  shows
    "parseMailto (js ''mailto:'' @ addr @ js ''?subject='' @ S @ js ''&body='' @ B) =
       Inr \<lparr>to = Some d, subject = Some (formValue S), body = Some (formValue B)\<rparr> \<and>
     (\<forall>s. encodeURIComponent s = Inr S \<longrightarrow> formValue S = s) \<and>
     (\<forall>b. encodeURIComponent b = Inr B \<longrightarrow> formValue B = b) \<and>
     (wellFormed S \<and> 0x25 \<notin> set S \<and> 0x2B \<notin> set S \<longrightarrow> formValue S = S) \<and>
     (wellFormed B \<and> 0x25 \<notin> set B \<and> 0x2B \<notin> set B \<longrightarrow> formValue B = B) \<and>
     parseMailto (js ''mailto:'' @ addr @ js ''?su='' @ S) =
       Inr \<lparr>to = Some d, subject = Some (formValue S), body = Some []\<rparr> \<and>
     parseMailto (js ''mailto:'' @ addr @ js ''?subject='' @ [] @ js ''&su='' @ B) =
       Inr \<lparr>to = Some d, subject = Some (formValue B), body = Some []\<rparr> \<and>
     parseMailto (js ''mailto:'' @ addr @ js ''?subject='' @ S @ js ''&su='' @ B) =
       Inr \<lparr>to = Some d,
            subject = Some (if formValue S \<noteq> [] then formValue S else formValue B),
            body = Some []\<rparr> \<and>
     parseMailto (js ''mailto:'' @ addr @ js ''?su='' @ S @ js ''&subject='' @ B) =
       Inr \<lparr>to = Some d,
            subject = Some (if formValue B \<noteq> [] then formValue B else formValue S),
            body = Some []\<rparr>"
proof -
  have to: "or_str (trim d) DEFAULT_TO = d"
    using assms(3,4) by (simp add: or_str_def)
  note pq = parseMailto_query [OF assms(1) _ last_value]
  have 1: "parseMailto (js ''mailto:'' @ addr @ js ''?subject='' @ S @ js ''&body='' @ B) =
       Inr \<lparr>to = Some d, subject = Some (formValue S), body = Some (formValue B)\<rparr>"
    unfolding query_shapes(1)
    using pq [of "js ''subject'' @ 0x3D # S @ 0x26 # js ''body''" B] assms(8)
    by (simp add: assms(2) to params_two [OF assms(5,6)] get_keys or_val_simps)
  have 2: "parseMailto (js ''mailto:'' @ addr @ js ''?su='' @ S) =
       Inr \<lparr>to = Some d, subject = Some (formValue S), body = Some []\<rparr>"
    unfolding query_shapes(5)
    using pq [of "js ''su''" S] assms(7)
    by (simp add: assms(2) to params_two [OF assms(5,6)] get_keys or_val_simps)
  have e: "URLSearchParams (js ''subject'' @ 0x3D # 0x26 # js ''su'' @ 0x3D # B) =
        [(js ''subject'', []), (js ''su'', formValue B)]"
    using params_two(2) [of "[]" B] assms(6) by (simp add: formValue_Nil)
  have 3: "parseMailto (js ''mailto:'' @ addr @ js ''?subject='' @ [] @ js ''&su='' @ B) =
       Inr \<lparr>to = Some d, subject = Some (formValue B), body = Some []\<rparr>"
    unfolding query_shapes(2)
    using pq [of "js ''subject'' @ 0x3D # [] @ 0x26 # js ''su''" B] assms(8)
    by (simp add: assms(2) to e get_keys or_val_simps)
  have 4: "parseMailto (js ''mailto:'' @ addr @ js ''?subject='' @ S @ js ''&su='' @ B) =
       Inr \<lparr>to = Some d,
            subject = Some (if formValue S \<noteq> [] then formValue S else formValue B),
            body = Some []\<rparr>"
    unfolding query_shapes(2)
    using pq [of "js ''subject'' @ 0x3D # S @ 0x26 # js ''su''" B] assms(8)
    by (simp add: assms(2) to params_two [OF assms(5,6)] get_keys or_val_simps)
  have 5: "parseMailto (js ''mailto:'' @ addr @ js ''?su='' @ S @ js ''&subject='' @ B) =
       Inr \<lparr>to = Some d,
            subject = Some (if formValue B \<noteq> [] then formValue B else formValue S),
            body = Some []\<rparr>"
    unfolding query_shapes(3)
    using pq [of "js ''su'' @ 0x3D # S @ 0x26 # js ''subject''" B] assms(8)
    by (simp add: assms(2) to params_two [OF assms(5,6)] get_keys or_val_simps)
  have 6: "formValue v = v" if "wellFormed v \<and> 0x25 \<notin> set v \<and> 0x2B \<notin> set v" for v
  proof -
    have "map plusToSpace v = v"
      by (rule map_idI) (use that in \<open>auto simp: plusToSpace_def\<close>)
    with that formValue_plain [of v] show ?thesis by simp
  qed
  from 1 2 3 4 5 6 [of S] 6 [of B] formValue_encode show ?thesis
    by blast
qed

theorem parseMailto_recovers_parts_witness:
  "0x3F \<notin> set (js ''sales@example.com'') \<and>
   decodeURIComponent (js ''sales@example.com'') = Inr (js ''sales@example.com'') \<and>
   trim (js ''sales@example.com'') = js ''sales@example.com'' \<and>
   0x26 \<notin> set (js ''Hi%20there'') \<and> 0x26 \<notin> set (js ''Hello'') \<and>
   parseMailto (js ''mailto:sales@example.com?subject=Hi%20there&body=Hello'') =
     Inr \<lparr>to = Some (js ''sales@example.com''), subject = Some (js ''Hi there''),
          body = Some (js ''Hello'')\<rparr> \<and>
   parseMailto (js ''mailto:sales@example.com?subject=Hi%20there&su=Hello'') =
     Inr \<lparr>to = Some (js ''sales@example.com''), subject = Some (js ''Hi there''),
          body = Some []\<rparr> \<and>
   parseMailto (js ''mailto:sales@example.com?subject=&su=Hello'') =
     Inr \<lparr>to = Some (js ''sales@example.com''), subject = Some (js ''Hello''),
          body = Some []\<rparr>"
proof -
  have h: "0x3F \<notin> set (js ''sales@example.com'')"
    "decodeURIComponent (js ''sales@example.com'') = Inr (js ''sales@example.com'')"
    "js ''sales@example.com'' \<noteq> []"
    "trim (js ''sales@example.com'') = js ''sales@example.com''"
    "0x26 \<notin> set (js ''Hi%20there'')" "0x26 \<notin> set (js ''Hello'')"
    "js ''Hi%20there'' = [] \<or> \<not> isWhiteSpace (last (js ''Hi%20there''))"
    "js ''Hello'' = [] \<or> \<not> isWhiteSpace (last (js ''Hello''))"
    by (simp_all add: string_defs)
  have v: "formValue (js ''Hi%20there'') = js ''Hi there''" "formValue (js ''Hello'') = js ''Hello''"
    by (simp_all add: formValue_def string_defs)
  have s: "js ''mailto:'' @ js ''sales@example.com'' @ js ''?subject='' @ js ''Hi%20there'' @
             js ''&body='' @ js ''Hello'' =
           js ''mailto:sales@example.com?subject=Hi%20there&body=Hello''"
    "js ''mailto:'' @ js ''sales@example.com'' @ js ''?subject='' @ js ''Hi%20there'' @
             js ''&su='' @ js ''Hello'' =
           js ''mailto:sales@example.com?subject=Hi%20there&su=Hello''"
    "js ''mailto:'' @ js ''sales@example.com'' @ js ''?subject='' @ [] @
             js ''&su='' @ js ''Hello'' =
           js ''mailto:sales@example.com?subject=&su=Hello''"
    by (simp_all add: js_def)
  note t = parseMailto_recovers_parts [OF h, unfolded s v]
  have n: "js ''Hi there'' \<noteq> []" by (simp add: js_def)
  from t n h show ?thesis by simp
qed



lemma or_val_not_None: "\<exists>y. or_val x (Some []) = Some y"
  by (cases x) (simp_all add: or_val_def truthy_def)

lemma parseMailto_fields:
  assumes "parseMailto href = Inr p"
  shows "to p \<noteq> None \<and> subject p \<noteq> None \<and> body p \<noteq> None"
proof (cases "href = [] \<or> \<not> startsWith (toLowerCase (trim href)) (js ''mailto:'')")
  case True
  with assms have "p = \<lparr>to = Some [], subject = Some [], body = Some []\<rparr>"
    unfolding parseMailto_def Let_def by (simp split: if_splits)
  then show ?thesis by simp
next
  case False
  define rest where "rest = drop 7 (trim href)"
  define toPart where "toPart = (if indexOf rest 0x3F \<ge> 0 then take (nat (indexOf rest 0x3F)) rest else rest)"
  define query where "query = (if indexOf rest 0x3F \<ge> 0 then drop (nat (indexOf rest 0x3F + 1)) rest else [])"
  from False assms obtain d where d: "decodeURIComponent (or_str toPart []) = Inr d"
    and p: "p = (if query \<noteq> [] then
                   \<lparr>to = Some (or_str (trim d) DEFAULT_TO),
                    subject = or_val (or_val (get (URLSearchParams query) (js ''subject''))
                                (get (URLSearchParams query) (js ''su''))) (Some []),
                    body = or_val (get (URLSearchParams query) (js ''body'')) (Some [])\<rparr>
                 else \<lparr>to = Some (or_str (trim d) DEFAULT_TO), subject = Some [], body = Some []\<rparr>)"
    unfolding parseMailto_def Let_def rest_def [symmetric] toPart_def [symmetric] query_def [symmetric]
    by (cases "decodeURIComponent (or_str toPart [])") (simp_all split: if_splits)
  show ?thesis
    unfolding p by (simp add: or_val_not_None)
qed

section \<open>The UTF-8 decoder yields scalar values\<close>










section \<open>Decomposed values are well formed\<close>

lemma wellFormed_Cons: "\<not> isSurrogate c \<Longrightarrow> wellFormed (c # s) = wellFormed s"
  by (cases s) (auto simp: surrogate_cases)

lemma wellFormed_pair: "isLead c \<Longrightarrow> isTrail d \<Longrightarrow> wellFormed (c # d # s) = wellFormed s"
  by simp










lemma wellFormed_drop_front:
  "\<forall>u\<in>set w. \<not> isSurrogate u \<Longrightarrow> wellFormed (w @ s) = wellFormed s"
  by (induction w) (simp_all add: wellFormed_Cons)








lemma hexValue_not_surrogate: "hexValue a = Some h \<Longrightarrow> \<not> isSurrogate a"
  by (auto simp: hexValue_def isSurrogate_def word_cmp split: if_splits)

lemma parseHexOctet_not_surrogate:
  assumes "parseHexOctet a b = Some B"
  shows "\<not> isSurrogate a" "\<not> isSurrogate b"
  using assms hexValue_not_surrogate
  by (auto simp: parseHexOctet_def split: option.splits)

lemma percent_not_surrogate: "\<not> isSurrogate 0x25"
  by (simp add: isSurrogate_def)

lemma contOctets_facts:
  "contOctets n r = Some os \<Longrightarrow>
   length os = n \<and> 3 * n \<le> length r \<and> (\<forall>u\<in>set (take (3 * n) r). \<not> isSurrogate u)"
proof (induction n arbitrary: r os)
  case 0
  then show ?case by (simp add: contOctets.simps)
next
  case (Suc n)
  from Suc(2) obtain a b r' oc os' where r: "r = 0x25 # a # b # r'"
    and h: "parseHexOctet a b = Some oc" and c: "contOctets n r' = Some os'" and os: "os = oc # os'"
    by (subst (asm) contOctets.simps) (auto split: list.splits if_splits option.splits)
  have t: "take (3 * Suc n) r = 0x25 # a # b # take (3 * n) r'"
    unfolding r by (simp add: numeral_3_eq_3)
  from Suc(1) [OF c] parseHexOctet_not_surrogate [OF h] percent_not_surrogate show ?case
    unfolding t os by (simp add: r)
qed

lemma utf8CodePoint_scalar:
  assumes "utf8CodePoint (B # os) = Some V" "length os = leadingOnes B - 1"
  shows "isScalar V"
proof -
  from assms(1) consider b1 where "os = [b1]" | b1 b2 where "os = [b1, b2]"
    | b1 b2 b3 where "os = [b1, b2, b3]"
    by (cases os rule: utf8CodePoint.cases) auto
  then show ?thesis
  proof cases
    case 1
    with assms(2) have "B < 0xE0"
      by (simp add: leadingOnes_def split: if_splits)
    with assms(1) 1 have "V = (B - 0xC0) * 0x40 + (b1 - 0x80)" "b1 \<le> 0xBF" "B - 0xC0 < 0x20"
      by (auto simp: Let_def contByte_def split: if_splits)
    then have "V < 0xD800" by linarith
    then show ?thesis by (simp add: isScalar_def)
  next
    case 2
    with assms(2) have "B < 0xF0"
      by (simp add: leadingOnes_def split: if_splits)
    with assms(1) 2 have "V = (B - 0xE0) * 0x1000 + (b1 - 0x80) * 0x40 + (b2 - 0x80)"
      "b1 \<le> 0xBF" "b2 \<le> 0xBF" "B - 0xE0 < 0x10" "\<not> (0xD800 \<le> V \<and> V \<le> 0xDFFF)"
      by (auto simp: Let_def contByte_def split: if_splits)
    then have "V < 0x110000" "\<not> (0xD800 \<le> V \<and> V \<le> 0xDFFF)" by linarith+
    then show ?thesis by (simp add: isScalar_def)
  next
    case 3
    with assms(1) have "0x10000 \<le> V" "V \<le> 0x10FFFF"
      by (auto simp: Let_def split: if_splits)
    then show ?thesis by (simp add: isScalar_def)
  qed
qed




section \<open>A plus sign in a query value\<close>








text \<open>
  Where \<open>decodeURIComponent\<close> succeeds on a well-formed string, percent-decoding the
  UTF-8 octets and reading them as UTF-8 gives the same text.
\<close>

lemma hexValue_byte:
  assumes "hexValue a = Some h"
  shows "a < 0x80" "isHexByte (unat a)" "hexByteValue (unat a) = h"
  using assms
  by (auto simp: hexValue_def isHexByte_def hexByteValue_def word_cmp split: if_splits)

lemma parseHexOctet_byte:
  assumes "parseHexOctet a b = Some B"
  shows "a < 0x80" "b < 0x80"
    "percentDecode (0x25 # unat a # unat b # X) = B # percentDecode X"
proof -
  from assms obtain h l where h: "hexValue a = Some h" and l: "hexValue b = Some l"
    and B: "B = 16 * h + l"
    by (auto simp: parseHexOctet_def split: option.splits)
  show "a < 0x80" "b < 0x80"
    using hexValue_byte(1) [OF h] hexValue_byte(1) [OF l] by simp_all
  show "percentDecode (0x25 # unat a # unat b # X) = B # percentDecode X"
    using hexValue_byte(2,3) [OF h] hexValue_byte(2,3) [OF l] by (simp add: B)
qed

lemma bytes_escape:
  assumes "parseHexOctet a b = Some B"
  shows "percentDecode (concat (map utf8 (toUSV (0x25 # a # b # r)))) =
         B # percentDecode (concat (map utf8 (toUSV r)))"
proof -
  have p: "(0x25 :: 16 word) < 0x80" "unat (0x25 :: 16 word) = 0x25"
    by simp_all
  have "concat (map utf8 (toUSV (0x25 # a # b # r))) =
        0x25 # unat a # unat b # concat (map utf8 (toUSV r))"
    by (simp only: bytes_ascii_Cons [OF p(1)] bytes_ascii_Cons [OF parseHexOctet_byte(1) [OF assms]]
        bytes_ascii_Cons [OF parseHexOctet_byte(2) [OF assms]] p(2))
  then show ?thesis
    by (simp only: parseHexOctet_byte(3) [OF assms])
qed

lemma contOctets_bytes:
  "contOctets n r = Some os \<Longrightarrow>
   percentDecode (concat (map utf8 (toUSV r))) =
     os @ percentDecode (concat (map utf8 (toUSV (drop (3 * n) r))))"
proof (induction n arbitrary: r os)
  case 0
  then show ?case by (simp add: contOctets.simps)
next
  case (Suc n)
  from Suc(2) obtain a b r' oc os' where r: "r = 0x25 # a # b # r'"
    and h: "parseHexOctet a b = Some oc" and c: "contOctets n r' = Some os'" and os: "os = oc # os'"
    by (subst (asm) contOctets.simps) (auto split: list.splits if_splits option.splits)
  have d: "drop (3 * Suc n) r = drop (3 * n) r'"
    unfolding r by (simp add: numeral_3_eq_3)
  show ?case
    unfolding d os using Suc(1) [OF c] by (simp only: r bytes_escape [OF h] append_Cons)
qed

lemma div_mod_digit: "x < m \<Longrightarrow> (a * m + x) div m = (a::nat) \<and> (a * m + x) mod m = x"
  by simp

lemma utf8CodePoint_utf8:
  assumes "utf8CodePoint (B # os) = Some V" "length os = leadingOnes B - 1"
  shows "utf8 V = B # os"
proof -
  from assms(1) consider b1 where "os = [b1]" | b1 b2 where "os = [b1, b2]"
    | b1 b2 b3 where "os = [b1, b2, b3]"
    by (cases os rule: utf8CodePoint.cases) auto
  then show ?thesis
  proof cases
    case 1
    with assms(2) have B: "0xC0 \<le> B" "B < 0xE0"
      by (simp_all add: leadingOnes_def split: if_splits)
    define a b where "a = B - 0xC0" and "b = b1 - 0x80"
    from assms(1) 1 have v: "V = a * 0x40 + b" "0x80 \<le> b1" "b1 \<le> 0xBF" "0x80 \<le> V"
      by (auto simp: Let_def contByte_def a_def b_def split: if_splits)
    have r: "b < 0x40" "a < 0x20" "B = 0xC0 + a" "b1 = 0x80 + b"
      using B v(2,3) by (simp_all add: a_def b_def)
    have "V < 0x800" using v(1) r(1,2) by linarith
    moreover have "V div 0x40 = a" "V mod 0x40 = b"
      using div_mod_digit [OF r(1), of a] by (simp_all add: v(1))
    ultimately show ?thesis
      using v(4) by (simp add: utf8_def 1 r(3,4))
  next
    case 2
    with assms(2) have B: "0xE0 \<le> B" "B < 0xF0"
      by (simp_all add: leadingOnes_def split: if_splits)
    define a b c where "a = B - 0xE0" and "b = b1 - 0x80" and "c = b2 - 0x80"
    from assms(1) 2 have v: "V = a * 0x1000 + b * 0x40 + c" "0x80 \<le> b1" "b1 \<le> 0xBF"
      "0x80 \<le> b2" "b2 \<le> 0xBF" "0x800 \<le> V"
      by (auto simp: Let_def contByte_def a_def b_def c_def split: if_splits)
    have r: "c < 0x40" "b < 0x40" "a < 0x10" "B = 0xE0 + a" "b1 = 0x80 + b" "b2 = 0x80 + c"
      using B v(2-5) by (simp_all add: a_def b_def c_def)
    have x: "b * 0x40 + c < 0x1000" using r(1,2) by linarith
    have "V < 0x10000" using v(1) r(1,2,3) by linarith
    moreover have "V div 0x1000 = a"
      using div_mod_digit [OF x, of a] by (simp add: v(1) add.assoc)
    moreover have "V = (a * 0x40 + b) * 0x40 + c"
      by (simp add: v(1) algebra_simps)
    then have "V div 0x40 = a * 0x40 + b" "V mod 0x40 = c"
      using div_mod_digit [OF r(1), of "a * 0x40 + b"] by simp_all
    moreover have "(a * 0x40 + b) mod 0x40 = b"
      using div_mod_digit [OF r(2), of a] by simp
    ultimately show ?thesis
      using v(6) by (simp add: utf8_def 2 r(4,5,6))
  next
    case 3
    with assms(2) have B: "0xF0 \<le> B" "B < 0xF8"
      by (simp_all add: leadingOnes_def split: if_splits)
    define a b c d where "a = B - 0xF0" and "b = b1 - 0x80" and "c = b2 - 0x80"
      and "d = b3 - 0x80"
    from assms(1) 3 have v: "V = a * 0x40000 + b * 0x1000 + c * 0x40 + d" "0x80 \<le> b1" "b1 \<le> 0xBF"
      "0x80 \<le> b2" "b2 \<le> 0xBF" "0x80 \<le> b3" "b3 \<le> 0xBF" "0x10000 \<le> V"
      by (auto simp: Let_def contByte_def a_def b_def c_def d_def split: if_splits)
    have r: "d < 0x40" "c < 0x40" "b < 0x40" "B = 0xF0 + a" "b1 = 0x80 + b" "b2 = 0x80 + c"
      "b3 = 0x80 + d"
      using B v(2-7) by (simp_all add: a_def b_def c_def d_def)
    have x: "b * 0x1000 + c * 0x40 + d < 0x40000" "c * 0x40 + d < 0x1000"
      using r(1,2,3) by linarith+
    have "V div 0x40000 = a"
      using div_mod_digit [OF x(1), of a] by (simp add: v(1) add.assoc)
    moreover have "V = (a * 0x40 + b) * 0x1000 + (c * 0x40 + d)"
      by (simp add: v(1) algebra_simps)
    then have "V div 0x1000 = a * 0x40 + b"
      using div_mod_digit [OF x(2), of "a * 0x40 + b"] by simp
    moreover have "V = ((a * 0x40 + b) * 0x40 + c) * 0x40 + d"
      by (simp add: v(1) algebra_simps)
    then have "V div 0x40 = (a * 0x40 + b) * 0x40 + c" "V mod 0x40 = d"
      using div_mod_digit [OF r(1), of "(a * 0x40 + b) * 0x40 + c"] by simp_all
    moreover have "(a * 0x40 + b) mod 0x40 = b" "((a * 0x40 + b) * 0x40 + c) mod 0x40 = c"
      using div_mod_digit [OF r(3), of a] div_mod_digit [OF r(2), of "a * 0x40 + b"] by simp_all
    ultimately show ?thesis
      using v(8) by (simp add: utf8_def 3 r(4-7))
  qed
qed

lemma percentDecode_utf8:
  assumes "isScalar cp" "cp \<noteq> 0x25"
  shows "percentDecode (utf8 cp @ X) = utf8 cp @ percentDecode X"
  by (rule percentDecode_append) (rule utf8_no_percent [OF assms])

lemma decode_scalars:
  "decodeURIComponent s = Inr d \<Longrightarrow> wellFormed s \<Longrightarrow>
   \<exists>cps. list_all isScalar cps \<and>
     percentDecode (concat (map utf8 (toUSV s))) = concat (map utf8 cps) \<and>
     d = concat (map utf16 cps)"
proof (induction "length s" arbitrary: s d rule: less_induct)
  case less
  show ?case
  proof (cases s)
    case Nil
    with less(2) have "d = []" by simp
    with Nil show ?thesis by (intro exI [of _ "[]"]) simp
  next
    case (Cons c s')
    show ?thesis
    proof (cases "c = 0x25")
      case False
      with Cons less(2) obtain d' where d: "decodeURIComponent s' = Inr d'" "d = c # d'"
        by (auto simp: map_sum_eq_Inr)
      show ?thesis
      proof (cases "isLead c")
        case True
        with less(3) Cons obtain t r where r: "s' = t # r" "isTrail t" "wellFormed r"
          by (cases s') (auto simp: surrogate_cases)
        have "t \<noteq> 0x25"
          using r(2) by (auto simp: isTrail_def)
        with d(1) r(1) obtain d'' where d'': "decodeURIComponent r = Inr d''" "d' = t # d''"
          by (auto simp: map_sum_eq_Inr)
        from less(1) [OF _ d''(1) r(3)] Cons r(1) obtain cps where
          cps: "list_all isScalar cps"
            "percentDecode (concat (map utf8 (toUSV r))) = concat (map utf8 cps)"
            "d'' = concat (map utf16 cps)"
          by auto
        have p: "isScalar (pairCodePoint c t)" "pairCodePoint c t \<noteq> 0x25"
          using isScalar_pair [OF True r(2)] pair_ge [of c t] by simp_all
        have b: "concat (map utf8 (toUSV s)) =
                 utf8 (pairCodePoint c t) @ concat (map utf8 (toUSV r))"
          using True r(2) by (simp add: Cons r(1))
        show ?thesis
          by (intro exI [of _ "pairCodePoint c t # cps"])
             (simp add: cps p(1) b percentDecode_utf8 [OF p] d(2) d''(2)
               utf16_pair [OF True r(2)])
      next
        case False
        with less(3) Cons have c: "\<not> isSurrogate c" and w: "wellFormed s'"
          by (cases s'; auto)+
        from less(1) [OF _ d(1) w] Cons obtain cps where
          cps: "list_all isScalar cps"
            "percentDecode (concat (map utf8 (toUSV s'))) = concat (map utf8 cps)"
            "d' = concat (map utf16 cps)"
          by auto
        have p: "isScalar (unat c)" "unat c \<noteq> 0x25"
          using c \<open>c \<noteq> 0x25\<close> by (simp_all add: isScalar_unat unat_eq_numeral_iff)
        have b: "concat (map utf8 (toUSV s)) = utf8 (unat c) @ concat (map utf8 (toUSV s'))"
          by (simp add: Cons toUSV_Cons [OF c])
        show ?thesis
          by (intro exI [of _ "unat c # cps"])
             (simp add: cps p(1) b percentDecode_utf8 [OF p] d(2) utf16_unat)
      qed
    next
      case True
      with less(2) Cons obtain a b r B where s': "s' = a # b # r"
        and h: "parseHexOctet a b = Some B"
        by (auto split: list.splits option.splits)
      have "wellFormed (0x25 # a # b # r)"
        using less(3) Cons True s' by simp
      then have w: "wellFormed r"
        by (simp only: wellFormed_Cons [OF percent_not_surrogate]
            wellFormed_Cons [OF parseHexOctet_not_surrogate(1) [OF h]]
            wellFormed_Cons [OF parseHexOctet_not_surrogate(2) [OF h]])
      have e: "percentDecode (concat (map utf8 (toUSV s))) =
               B # percentDecode (concat (map utf8 (toUSV r)))"
        unfolding Cons True s' by (rule bytes_escape [OF h])
      show ?thesis
      proof (cases "leadingOnes B = 0")
        case z: True
        with less(2) Cons True s' h obtain d' where d: "decodeURIComponent r = Inr d'"
          "d = of_nat B # d'"
          by (auto simp: map_sum_eq_Inr)
        have B: "B < 0x80" using z by (simp add: leadingOnes_def split: if_splits)
        from less(1) [OF _ d(1) w] Cons s' obtain cps where
          cps: "list_all isScalar cps"
            "percentDecode (concat (map utf8 (toUSV r))) = concat (map utf8 cps)"
            "d' = concat (map utf16 cps)"
          by auto
        have p: "isScalar B" "utf8 B = [B]" "utf16 B = [of_nat B]"
          using B by (simp_all add: isScalar_def utf8_def utf16_def)
        show ?thesis
          by (intro exI [of _ "B # cps"]) (simp add: cps p e d(2))
      next
        case False
        with less(2) Cons True s' h obtain os V d' where
          co: "contOctets (leadingOnes B - 1) r = Some os"
          and v: "utf8CodePoint (B # os) = Some V"
          and d: "decodeURIComponent (drop (3 * (leadingOnes B - 1)) r) = Inr d'"
            "d = utf16 V @ d'"
          by (auto simp: map_sum_eq_Inr Let_def split: if_splits option.splits)
        note f = contOctets_facts [OF co]
        have "r = take (3 * (leadingOnes B - 1)) r @ drop (3 * (leadingOnes B - 1)) r"
          by simp
        with w f have wd: "wellFormed (drop (3 * (leadingOnes B - 1)) r)"
          using wellFormed_drop_front by metis
        have len: "length (drop (3 * (leadingOnes B - 1)) r) < length s"
          by (simp add: Cons s')
        from less(1) [OF len d(1) wd] obtain cps where
          cps: "list_all isScalar cps"
            "percentDecode (concat (map utf8 (toUSV (drop (3 * (leadingOnes B - 1)) r)))) =
               concat (map utf8 cps)"
            "d' = concat (map utf16 cps)"
          by blast
        have l: "length os = leadingOnes B - 1" using f by simp
        have V: "isScalar V" "utf8 V = B # os"
          using utf8CodePoint_scalar [OF v l] utf8CodePoint_utf8 [OF v l] by simp_all
        have "percentDecode (concat (map utf8 (toUSV s))) = utf8 V @ concat (map utf8 cps)"
          unfolding e contOctets_bytes [OF co] cps(2) V(2) by simp
        then show ?thesis
          by (intro exI [of _ "V # cps"]) (simp add: cps(1,3) V(1) d(2))
      qed
    qed
  qed
qed

lemma decode_percentValue:
  assumes "decodeURIComponent v = Inr x" "wellFormed v"
  shows "percentValue v = x"
proof -
  from decode_scalars [OF assms] obtain cps where
    cps: "list_all isScalar cps"
      "percentDecode (concat (map utf8 (toUSV v))) = concat (map utf8 cps)"
      "x = concat (map utf16 cps)"
    by auto
  show ?thesis
    by (simp add: percentValue_def utf8DecodeWithoutBOM_def cps(2,3)
        utf8Decode_concat_utf8 [OF cps(1)])
qed

lemma percentValue_plain:
  assumes "wellFormed v" "0x25 \<notin> set v"
  shows "percentValue v = v"
proof -
  have "decodeURIComponent v = Inr v"
    using assms(2) by (induction v) simp_all
  from decode_percentValue [OF this assms(1)] show ?thesis .
qed





section \<open>Decomposing and rebuilding\<close>











end
